theory Spec2Isabelle
  imports Main "HOL-Library.Sublist"
begin

section \<open>Server: focus tracking and broadcast (asd.js, lines 413-461)\<close>

text \<open>
  A \<open>TextDocument\<close> of the editor protocol library, as far as the handlers read it:
  \<open>change.document.uri\<close> and \<open>change.document.getText()\<close>.
\<close>

record document =
  uri :: string
  getText :: string

text \<open>A JavaScript exception, with its message.\<close>

datatype error = Error string

text \<open>
  \<open>md.render\<close> is the external markdown renderer. The argument is a JavaScript value
  that may be \<open>undefined\<close> (\<open>None\<close>); the call returns the HTML or throws.
\<close>

type_synonym renderer = "string option \<Rightarrow> error + string"

text \<open>
  The object literal given to \<open>JSON.stringify\<close>: its keys with their values, in the
  order of the literal.
\<close>

type_synonym json_object = "(string \<times> string) list"

text \<open>
  The process-wide state. \<open>documents\<close> is the library's \<open>TextDocuments\<close> manager and
  \<open>clients\<close> the library's \<open>wss.clients\<close> set (in insertion order); the handlers only
  read them. \<open>sent\<close> logs every \<open>send\<close> on a socket and \<open>render_calls\<close> every argument
  \<open>md.render\<close> was called with, both in program order.
\<close>

record 'c server =
  currentFocus :: string
  documents :: "string \<rightharpoonup> document"
  documentSettings :: "string \<rightharpoonup> nat"
  clients :: "'c list"
  sent :: "('c \<times> json_object) list"
  render_calls :: "string option list"

definition initial_server :: "'c server" where
  "initial_server =
     \<lparr>currentFocus = '''', documents = Map.empty, documentSettings = Map.empty,
      clients = [], sent = [], render_calls = []\<rparr>"

text \<open>
  \<open>documents.get(currentFocus)?.getText()\<close>: \<open>undefined\<close> when the manager has no
  document under the focused URI.
\<close>

definition focused_text :: "'c server \<Rightarrow> string option" where
  "focused_text s = map_option getText (documents s (currentFocus s))"

text \<open>
  \<open>wss.on("connection", ...)\<close>: the handler registers a logger for what the viewer
  sends, which changes nothing here, and sends one message with the two keys \<open>action\<close>
  and \<open>text\<close>. An exception of the renderer leaves the handler before anything is sent. The
  result is the state after the handler and the exception that left it, if any.
\<close>

definition on_connection ::
  "renderer \<Rightarrow> 'c server \<Rightarrow> 'c \<Rightarrow> 'c server \<times> error option" where
  "on_connection md s ws =
     (let arg = focused_text s;
          s1 = s\<lparr>render_calls := render_calls s @ [arg]\<rparr>
      in case md arg of
           Inl e \<Rightarrow> (s1, Some e)
         | Inr html \<Rightarrow>
             (s1\<lparr>sent := sent s1 @ [(ws, [(''action'', ''update''), (''text'', html)])]\<rparr>,
              None))"

text \<open>
  The body of \<open>wss.clients.forEach((client) => client.send(JSON.stringify({...})))\<close>:
  the renderer is called once per client, and an exception ends the loop.
\<close>

fun forEach_send ::
  "renderer \<Rightarrow> document \<Rightarrow> 'c list \<Rightarrow> 'c server \<Rightarrow> 'c server \<times> error option" where
  "forEach_send md d [] s = (s, None)"
| "forEach_send md d (client # rest) s =
     (let s1 = s\<lparr>render_calls := render_calls s @ [Some (getText d)]\<rparr>
      in case md (Some (getText d)) of
           Inl e \<Rightarrow> (s1, Some e)
         | Inr html \<Rightarrow>
             forEach_send md d rest
               (s1\<lparr>sent := sent s1 @
                  [(client, [(''action'', ''update''), (''text'', html), (''uri'', uri d)])]\<rparr>))"

definition onDidOpen ::
  "renderer \<Rightarrow> 'c server \<Rightarrow> document \<Rightarrow> 'c server \<times> error option" where
  "onDidOpen md s d = forEach_send md d (clients s) (s\<lparr>currentFocus := uri d\<rparr>)"

definition onDidChangeContent ::
  "renderer \<Rightarrow> 'c server \<Rightarrow> document \<Rightarrow> 'c server \<times> error option" where
  "onDidChangeContent md s d = forEach_send md d (clients s) (s\<lparr>currentFocus := uri d\<rparr>)"

text \<open>\<open>documents.onDidClose\<close> (lines 168-170): only the cached settings are dropped.\<close>

definition onDidClose :: "'c server \<Rightarrow> document \<Rightarrow> 'c server" where
  "onDidClose s d = s\<lparr>documentSettings := (documentSettings s)(uri d := None)\<rparr>"

text \<open>
  Modelled from the spec: the document manager of the editor protocol library
  (\<open>TextDocuments\<close>, created at line 67 and listening from line 263) is not under
  src/. It turns the editor's events into calls of the handlers registered above.
  Section 4.1 of the spec has it store the content of an opened or changed document,
  and the comment at lines 172-173 says that the content-change event is emitted when
  a document is first opened as well as when its content changes: an open event calls
  the open handler and then the change handler, a change event the change handler.
  The result is the state after the event and the exceptions the handlers threw.
\<close>

definition thrown :: "error option \<Rightarrow> error list" where
  "thrown e = (case e of None \<Rightarrow> [] | Some x \<Rightarrow> [x])"

definition didOpenTextDocument ::
  "renderer \<Rightarrow> 'c server \<Rightarrow> document \<Rightarrow> 'c server \<times> error list" where
  "didOpenTextDocument md s d =
     (let (s1, e1) = onDidOpen md (s\<lparr>documents := (documents s)(uri d \<mapsto> d)\<rparr>) d;
          (s2, e2) = onDidChangeContent md s1 d
      in (s2, thrown e1 @ thrown e2))"

definition didChangeTextDocument ::
  "renderer \<Rightarrow> 'c server \<Rightarrow> document \<Rightarrow> 'c server \<times> error list" where
  "didChangeTextDocument md s d =
     (let (s1, e1) = onDidChangeContent md (s\<lparr>documents := (documents s)(uri d \<mapsto> d)\<rparr>) d
      in (s1, thrown e1))"

text \<open>The messages a socket was sent, oldest first.\<close>

definition sent_to :: "'c \<Rightarrow> ('c \<times> json_object) list \<Rightarrow> json_object list" where
  "sent_to c log = map snd (filter (\<lambda>p. fst p = c) log)"

text \<open>A renderer for the examples: wraps a string in a paragraph, throws on a non-string.\<close>

definition example_md :: renderer where
  "example_md x =
     (case x of None \<Rightarrow> Inl (Error ''Input data should be a String'')
      | Some t \<Rightarrow> Inr (''<p>'' @ t @ ''</p>''))"

definition docA :: document where
  "docA = \<lparr>uri = ''a.md'', getText = ''A''\<rparr>"

definition docB :: document where
  "docB = \<lparr>uri = ''b.md'', getText = ''B''\<rparr>"

definition docA2 :: document where
  "docA2 = \<lparr>uri = ''a.md'', getText = ''A2''\<rparr>"

text \<open>A server on which nothing was opened yet, with one viewer connected.\<close>

definition connected_server :: "nat server" where
  "connected_server =
     \<lparr>currentFocus = '''', documents = Map.empty, documentSettings = Map.empty,
      clients = [1], sent = [], render_calls = []\<rparr>"

text \<open>A server with document \<open>a.md\<close> open and focused and one viewer connected.\<close>

definition focused_server :: "nat server" where
  "focused_server =
     \<lparr>currentFocus = ''a.md'', documents = [''a.md'' \<mapsto> docA], documentSettings = Map.empty,
      clients = [1], sent = [], render_calls = []\<rparr>"


section \<open>Client: the live DOM tree (asd.js, lines 330-404)\<close>

text \<open>
  A DOM node: an element with its tag name, attribute list and children, a text node or
  a comment. The first field is the identity of the node object: two nodes with the
  same content are still two nodes.
\<close>

datatype node =
    Element nat string "(string \<times> string) list" "node list"
  | Text nat string
  | Comment nat string

fun nid :: "node \<Rightarrow> nat" where
  "nid (Element i n a cs) = i"
| "nid (Text i v) = i"
| "nid (Comment i v) = i"

fun childNodes :: "node \<Rightarrow> node list" where
  "childNodes (Element i n a cs) = cs"
| "childNodes (Text i v) = []"
| "childNodes (Comment i v) = []"

fun attributes :: "node \<Rightarrow> (string \<times> string) list" where
  "attributes (Element i n a cs) = a"
| "attributes (Text i v) = []"
| "attributes (Comment i v) = []"

text \<open>
  The DOM's attribute methods. The attribute list is read through \<open>map_of\<close>:
  \<open>getAttribute\<close> is the lookup, with \<open>None\<close> for \<open>null\<close>. \<open>setAttribute\<close> overwrites the
  value in place or adds the attribute at the end.
\<close>

definition hasAttribute :: "node \<Rightarrow> string \<Rightarrow> bool" where
  "hasAttribute el k = (map_of (attributes el) k \<noteq> None)"

fun set_attr :: "string \<Rightarrow> string \<Rightarrow> (string \<times> string) list \<Rightarrow> (string \<times> string) list" where
  "set_attr k v [] = [(k, v)]"
| "set_attr k v (p # ps) = (if fst p = k then (k, v) # ps else p # set_attr k v ps)"

definition remove_attr :: "string \<Rightarrow> (string \<times> string) list \<Rightarrow> (string \<times> string) list" where
  "remove_attr k ps = filter (\<lambda>p. fst p \<noteq> k) ps"

fun setAttribute :: "node \<Rightarrow> string \<Rightarrow> string \<Rightarrow> node" where
  "setAttribute (Element i n a cs) k v = Element i n (set_attr k v a) cs"
| "setAttribute (Text i w) k v = Text i w"
| "setAttribute (Comment i w) k v = Comment i w"

text \<open>
  \<open>isEqualNode\<close> of the DOM: same kind of node, same name, the same attributes whatever
  their order, the same data, and children that are equal one by one. The identities
  of the nodes play no part.
\<close>

definition attrs_equal :: "(string \<times> string) list \<Rightarrow> (string \<times> string) list \<Rightarrow> bool" where
  "attrs_equal a b = list_all (\<lambda>k. map_of a k = map_of b k) (map fst a @ map fst b)"

fun isEqualNode :: "node \<Rightarrow> node \<Rightarrow> bool"
and isEqualNodes :: "node list \<Rightarrow> node list \<Rightarrow> bool" where
  "isEqualNode (Element i n a cs) (Element j m b ds) =
     (n = m \<and> attrs_equal a b \<and> isEqualNodes cs ds)"
| "isEqualNode (Text i v) (Text j w) = (v = w)"
| "isEqualNode (Comment i v) (Comment j w) = (v = w)"
| "isEqualNode (Element i n a cs) (Text j w) = False"
| "isEqualNode (Element i n a cs) (Comment j w) = False"
| "isEqualNode (Text i v) (Element j m b ds) = False"
| "isEqualNode (Text i v) (Comment j w) = False"
| "isEqualNode (Comment i v) (Element j m b ds) = False"
| "isEqualNode (Comment i v) (Text j w) = False"
| "isEqualNodes [] [] = True"
| "isEqualNodes (x # xs) (y # ys) = (isEqualNode x y \<and> isEqualNodes xs ys)"
| "isEqualNodes [] (y # ys) = False"
| "isEqualNodes (x # xs) [] = False"

text \<open>
  What a reconciliation does to the live document, in program order: the calls of
  \<open>scrollIntoView\<close> (the first constructor) and the mutations of live nodes (the
  others), by node identity; \<open>RemoveChild\<close> and \<open>AppendChild\<close> name the parent first.
  Writes to the parsed target tree, which is not part of the document, are not effects.
\<close>

datatype effect =
    ScrollIntoView nat
  | SetAttribute nat string string
  | RemoveAttribute nat string
  | SetNodeValue nat string
  | RemoveChild nat nat
  | AppendChild nat nat


subsection \<open>The callbacks the page passes to the reconciler (lines 345-388)\<close>

text \<open>
  \<open>onBeforeElUpdated\<close> (lines 347-372): an \<open>open\<close> attribute of the live element is
  written onto the target element first; then an equal pair stops the update, and any
  other pair scrolls the live element into view and lets the update go on. The result
  is the returned boolean, the target element after the write, and the effects.
\<close>

definition onBeforeElUpdated :: "node \<Rightarrow> node \<Rightarrow> bool \<times> node \<times> effect list" where
  "onBeforeElUpdated fromEl toEl =
     (let toEl1 = (if hasAttribute fromEl ''open'' then setAttribute toEl ''open'' ''true''
                   else toEl)
      in if isEqualNode fromEl toEl1 then (False, toEl1, [])
         else (True, toEl1, [ScrollIntoView (nid fromEl)]))"

text \<open>\<open>onElUpdated\<close> (lines 373-377): the body is commented out.\<close>

definition onElUpdated :: "node \<Rightarrow> effect list" where
  "onElUpdated el = []"

text \<open>
  \<open>onNodeAdded\<close> (lines 378-386): a node that has a \<open>scrollIntoView\<close> method, which
  elements have and text and comment nodes have not, is scrolled into view.
\<close>

fun onNodeAdded :: "node \<Rightarrow> effect list" where
  "onNodeAdded (Element i n a cs) = [ScrollIntoView i]"
| "onNodeAdded (Text i v) = []"
| "onNodeAdded (Comment i v) = []"

text \<open>
  The options object of the call, without \<open>childrenOnly: true\<close> (built into \<open>morphdom\<close>
  below) and \<open>getNodeKey: () => null\<close> (no node has a key).
\<close>

record options =
  opt_onBeforeElUpdated :: "node \<Rightarrow> node \<Rightarrow> bool \<times> node \<times> effect list"
  opt_onElUpdated :: "node \<Rightarrow> effect list"
  opt_onNodeAdded :: "node \<Rightarrow> effect list"

definition page_options :: options where
  "page_options =
     \<lparr>opt_onBeforeElUpdated = onBeforeElUpdated, opt_onElUpdated = onElUpdated,
      opt_onNodeAdded = onNodeAdded\<rparr>"


subsection \<open>The reconciler\<close>

text \<open>
  Modelled from the spec: the reconciler the page calls, \<open>window.morphdom\<close>, is loaded
  from a script tag (line 277) and its code is not in the source tree. Section 4.3 of
  the spec gives its contract: nodes are matched without keys, by position, node type
  and tag; matched elements are offered to \<open>onBeforeElUpdated\<close> and, unless it returns
  false, take the attributes of their counterpart and have their children matched in
  turn; nodes only in the old tree are removed, nodes only in the new tree are added
  (and reported to \<open>onNodeAdded\<close>, the node and its descendants); and with
  \<open>childrenOnly\<close> the root itself is never touched. The walk below is the one of the
  library for nodes without keys: each target child takes the first remaining live
  child of the same kind, the live children skipped on the way are removed, and
  target children left over are appended. The handlers of the library for form
  controls (\<open>INPUT\<close>, \<open>OPTION\<close>, \<open>SELECT\<close>, \<open>TEXTAREA\<close>), which run after the
  children of such an element were walked and copy properties that are neither
  attributes nor children, and attribute namespaces are outside this model.
\<close>

text \<open>
  Modelled from the spec: the two loops of the library's \<open>morphAttrs\<close>, which is not
  under src/ (a real attribute list has no two entries of one name).
\<close>

fun set_attrs ::
  "nat \<Rightarrow> (string \<times> string) list \<Rightarrow> (string \<times> string) list
     \<Rightarrow> (string \<times> string) list \<times> effect list" where
  "set_attrs i [] a = (a, [])"
| "set_attrs i (p # ps) a =
     (if map_of a (fst p) = Some (snd p) then set_attrs i ps a
      else (let (a1, es) = set_attrs i ps (set_attr (fst p) (snd p) a)
            in (a1, SetAttribute i (fst p) (snd p) # es)))"

fun remove_attrs ::
  "nat \<Rightarrow> (string \<times> string) list \<Rightarrow> string list \<Rightarrow> (string \<times> string) list
     \<Rightarrow> (string \<times> string) list \<times> effect list" where
  "remove_attrs i b [] a = (a, [])"
| "remove_attrs i b (k # ks) a =
     (if map_of b k = None \<and> map_of a k \<noteq> None
      then (let (a1, es) = remove_attrs i b ks (remove_attr k a)
            in (a1, RemoveAttribute i k # es))
      else remove_attrs i b ks a)"

text \<open>
  Modelled from the spec: \<open>morphAttrs\<close> of the library, not under src/. Every attribute
  of the target, from the last to the first, is set on the live element unless it has
  that value already; then every attribute of the live element, from the last to the
  first, that the target has not is removed.
\<close>

definition morphAttrs ::
  "nat \<Rightarrow> (string \<times> string) list \<Rightarrow> (string \<times> string) list
     \<Rightarrow> (string \<times> string) list \<times> effect list" where
  "morphAttrs i a b =
     (let (a1, es1) = set_attrs i (rev b) a;
          (a2, es2) = remove_attrs i b (rev (map fst a1)) a1
      in (a2, es1 @ es2))"

text \<open>
  Modelled from the spec: \<open>handleNodeAdded\<close> of the library, not under src/. An added
  node is reported to \<open>onNodeAdded\<close>, and so is each of its descendants.
\<close>

fun handleNodeAdded :: "options \<Rightarrow> node \<Rightarrow> effect list" where
  "handleNodeAdded opts (Element i n a cs) =
     opt_onNodeAdded opts (Element i n a cs) @ concat (map (handleNodeAdded opts) cs)"
| "handleNodeAdded opts (Text i v) = opt_onNodeAdded opts (Text i v)"
| "handleNodeAdded opts (Comment i v) = opt_onNodeAdded opts (Comment i v)"

text \<open>
  \<open>toUpperCase\<close> and \<open>toLowerCase\<close> of JavaScript strings, for strings of ASCII
  characters.
\<close>

definition toUpperCase :: "string \<Rightarrow> string" where
  "toUpperCase s =
     map (\<lambda>c. if 97 \<le> (of_char c :: nat) \<and> (of_char c :: nat) \<le> 122
              then char_of ((of_char c :: nat) - 32) else c) s"

definition toLowerCase :: "string \<Rightarrow> string" where
  "toLowerCase s =
     map (\<lambda>c. if 65 \<le> (of_char c :: nat) \<and> (of_char c :: nat) \<le> 90
              then char_of ((of_char c :: nat) + 32) else c) s"

text \<open>
  Modelled from the spec: \<open>compareNodeNames\<close> of the library, not under src/. Two tag
  names match when they are the same, or when one starts with an upper-case character
  code (at most 90), the other with a lower-case one (at least 97), and the first is
  the other in upper case.
\<close>

definition compareNodeNames :: "string \<Rightarrow> string \<Rightarrow> bool" where
  "compareNodeNames fromNodeName toNodeName =
     (if fromNodeName = toNodeName then True
      else (case (fromNodeName, toNodeName) of
              (c # cs, d # ds) \<Rightarrow>
                if (of_char c :: nat) \<le> 90 \<and> 97 \<le> (of_char d :: nat)
                then fromNodeName = toUpperCase toNodeName
                else if (of_char d :: nat) \<le> 90 \<and> 97 \<le> (of_char c :: nat)
                then toNodeName = toUpperCase fromNodeName
                else False
            | ([], ds) \<Rightarrow> False
            | (c # cs, []) \<Rightarrow> False))"

text \<open>
  Modelled from the spec: the library's test, not under src/, whether a live child and
  a target child are matched: same node type and, for elements, tag names that
  \<open>compareNodeNames\<close> accepts.
\<close>

fun compatible :: "node \<Rightarrow> node \<Rightarrow> bool" where
  "compatible (Element i n a cs) (Element j m b ds) = compareNodeNames n m"
| "compatible (Text i v) (Text j w) = True"
| "compatible (Comment i v) (Comment j w) = True"
| "compatible (Element i n a cs) (Text j w) = False"
| "compatible (Element i n a cs) (Comment j w) = False"
| "compatible (Text i v) (Element j m b ds) = False"
| "compatible (Text i v) (Comment j w) = False"
| "compatible (Comment i v) (Element j m b ds) = False"
| "compatible (Comment i v) (Text j w) = False"

fun isElement :: "node \<Rightarrow> bool" where
  "isElement (Element i n a cs) = True"
| "isElement (Text i v) = False"
| "isElement (Comment i v) = False"

text \<open>
  Modelled from the spec: the library's update, not under src/, of a matched pair of
  text nodes or of comments: the live node takes the new data if it differs.
\<close>

fun updateNodeValue :: "node \<Rightarrow> node \<Rightarrow> node \<times> effect list" where
  "updateNodeValue (Text i v) (Text j w) =
     (if v \<noteq> w then (Text i w, [SetNodeValue i w]) else (Text i v, []))"
| "updateNodeValue (Comment i v) (Comment j w) =
     (if v \<noteq> w then (Comment i w, [SetNodeValue i w]) else (Comment i v, []))"
| "updateNodeValue (Element i n a cs) t = (Element i n a cs, [])"
| "updateNodeValue (Text i v) (Element j m b ds) = (Text i v, [])"
| "updateNodeValue (Text i v) (Comment j w) = (Text i v, [])"
| "updateNodeValue (Comment i v) (Element j m b ds) = (Comment i v, [])"
| "updateNodeValue (Comment i v) (Text j w) = (Comment i v, [])"

text \<open>
  Modelled from the spec: \<open>morphEl\<close> and \<open>morphChildren\<close> of the library, not under
  src/. \<open>morphEl\<close> updates a matched live element (it is called on elements only):
  unless \<open>onBeforeElUpdated\<close> returns false, the attributes are morphed,
  \<open>onElUpdated\<close> is called and the children are walked, against the target element
  as the callback left it. \<open>morphChildren\<close> walks the children of a matched pair;
  its second argument is the identity of the live parent.
\<close>

fun morphEl :: "options \<Rightarrow> node \<Rightarrow> node \<Rightarrow> node \<times> effect list"
and morphChildren ::
  "options \<Rightarrow> nat \<Rightarrow> node list \<Rightarrow> node list \<Rightarrow> node list \<times> effect list" where
  "morphEl opts (Element i n a cs) toEl =
     (case opt_onBeforeElUpdated opts (Element i n a cs) toEl of
        (go, toEl1, es0) \<Rightarrow>
          if \<not> go then (Element i n a cs, es0)
          else (let (a1, es1) = morphAttrs i a (attributes toEl1);
                    es2 = opt_onElUpdated opts (Element i n a1 cs);
                    (cs1, es3) = morphChildren opts i cs (childNodes toEl1)
                in (Element i n a1 cs1, es0 @ es1 @ es2 @ es3)))"
| "morphEl opts (Text i v) toEl = (Text i v, [])"
| "morphEl opts (Comment i v) toEl = (Comment i v, [])"
| "morphChildren opts p fs [] = ([], map (\<lambda>f. RemoveChild p (nid f)) fs)"
| "morphChildren opts p [] (t # ts) =
     (let (rest, es) = morphChildren opts p [] ts
      in (t # rest, AppendChild p (nid t) # handleNodeAdded opts t @ es))"
| "morphChildren opts p (f # fs) (t # ts) =
     (if compatible f t
      then (let (f1, es1) = (if isElement f then morphEl opts f t else updateNodeValue f t);
                (rest, es2) = morphChildren opts p fs ts
            in (f1 # rest, es1 @ es2))
      else (let (rest, es) = morphChildren opts p fs (t # ts)
            in (rest, RemoveChild p (nid f) # es)))"

text \<open>
  Modelled from the spec: \<open>morphdom(fromNode, toNode, {childrenOnly: true, ...})\<close> of
  the library, not under src/, on the parsed target: the children of the live root are
  matched against the children of the target, and the root element is returned as it
  was but for its children. The live root is the element \<open>#mdText\<close> of the page; for
  a root that is no element nothing is done.
\<close>

fun morphdom :: "options \<Rightarrow> node \<Rightarrow> node \<Rightarrow> node \<times> effect list" where
  "morphdom opts (Element i n a cs) toNode =
     (let (cs1, es) = morphChildren opts i cs (childNodes toNode)
      in (Element i n a cs1, es))"
| "morphdom opts (Text i v) toNode = (Text i v, [])"
| "morphdom opts (Comment i v) toNode = (Comment i v, [])"

text \<open>
  The string the page hands to the reconciler (line 344): the payload between two
  opening \<open>div\<close> tags.
\<close>

definition target_html :: "string \<Rightarrow> string" where
  "target_html received_text = ''<div>'' @ received_text @ ''<div>''"

text \<open>
  The reconciliation of \<open>ws.onmessage\<close> (lines 338-389). \<open>toElement\<close> is the HTML
  parser of the browser, through which the reconciler turns the string into the first
  node of the parsed fragment.
\<close>

definition reconcile :: "(string \<Rightarrow> node) \<Rightarrow> node \<Rightarrow> string \<Rightarrow> node \<times> effect list" where
  "reconcile toElement markdownBody received_text =
     morphdom page_options markdownBody (toElement (target_html received_text))"


text \<open>
  The earlier variant of the page script (lines 15-46) renders the markdown in the
  browser and passes other callbacks: \<open>onBeforeElUpdated\<close> writes the \<open>open\<close>
  attribute in the same way and returns whether the pair differs, \<open>onElUpdated\<close>
  scrolls the updated element into view, and there is no \<open>onNodeAdded\<close>. \<open>md_render\<close>
  is the markdown renderer of the browser.
\<close>

definition fragment_onBeforeElUpdated :: "node \<Rightarrow> node \<Rightarrow> bool \<times> node \<times> effect list" where
  "fragment_onBeforeElUpdated fromEl toEl =
     (let toEl1 = (if hasAttribute fromEl ''open'' then setAttribute toEl ''open'' ''true''
                   else toEl)
      in (\<not> isEqualNode fromEl toEl1, toEl1, []))"

definition fragment_onElUpdated :: "node \<Rightarrow> effect list" where
  "fragment_onElUpdated el = [ScrollIntoView (nid el)]"

definition fragment_options :: options where
  "fragment_options =
     \<lparr>opt_onBeforeElUpdated = fragment_onBeforeElUpdated,
      opt_onElUpdated = fragment_onElUpdated, opt_onNodeAdded = (\<lambda>el. [])\<rparr>"


text \<open>Any number of update messages, reconciled one after the other.\<close>

fun reconcile_all :: "(string \<Rightarrow> node) \<Rightarrow> node \<Rightarrow> string list \<Rightarrow> node" where
  "reconcile_all toElement markdownBody [] = markdownBody"
| "reconcile_all toElement markdownBody (m # ms) =
     reconcile_all toElement (fst (reconcile toElement markdownBody m)) ms"

text \<open>
  The target node as \<open>onBeforeElUpdated\<close> leaves it for a live node: with
  \<open>open="true"\<close> if the live node carries \<open>open\<close>. A live child is settled with its
  counterpart when the two are equal nodes after that write (for an element, this is
  the test by which the callback stops the update).
\<close>

definition with_open_of :: "node \<Rightarrow> node \<Rightarrow> node" where
  "with_open_of fromEl toEl =
     (if hasAttribute fromEl ''open'' then setAttribute toEl ''open'' ''true'' else toEl)"

definition settled :: "node \<Rightarrow> node \<Rightarrow> bool" where
  "settled r t = isEqualNode r (with_open_of r t)"

text \<open>
  The identities of the nodes of a tree, and of those of its elements that carry an
  \<open>open\<close> attribute.
\<close>

fun ids :: "node \<Rightarrow> nat list" where
  "ids (Element i n a cs) = i # concat (map ids cs)"
| "ids (Text i v) = [i]"
| "ids (Comment i v) = [i]"

fun open_ids :: "node \<Rightarrow> nat list" where
  "open_ids (Element i n a cs) =
     (if map_of a ''open'' \<noteq> None then [i] else []) @ concat (map open_ids cs)"
| "open_ids (Text i v) = []"
| "open_ids (Comment i v) = []"

text \<open>
  The live nodes that the walk of the reconciler matches with a counterpart, read off
  the two trees before the reconciliation: a target child takes the first remaining
  live child that is compatible with it, and the live children skipped on the way are
  lost; below a matched element the walk goes on, unless the pair is settled, in which
  case the live element is left as it is with all its descendants.
\<close>

fun kept_ids :: "node list \<Rightarrow> node list \<Rightarrow> nat list" where
  "kept_ids [] ts = []"
| "kept_ids (f # fs) [] = []"
| "kept_ids (Element i n a cs # fs) (t # ts) =
     (if compatible (Element i n a cs) t
      then (if settled (Element i n a cs) t then ids (Element i n a cs)
            else i # kept_ids cs (childNodes t)) @ kept_ids fs ts
      else kept_ids fs (t # ts))"
| "kept_ids (Text i v # fs) (t # ts) =
     (if compatible (Text i v) t then i # kept_ids fs ts else kept_ids fs (t # ts))"
| "kept_ids (Comment i v # fs) (t # ts) =
     (if compatible (Comment i v) t then i # kept_ids fs ts else kept_ids fs (t # ts))"

text \<open>
  Example documents. \<open>empty_page\<close> is the root element as the page is served (lines
  313-314), with the line break between its tags. \<open>parse_details\<close> and \<open>parse_details_again\<close>
  are two parses of \<open>target_html ''<details open></details>''\<close>, as the HTML parser
  builds them (the second \<open>div\<close> stays open to the end of the input and is empty),
  with fresh nodes each time.
\<close>

definition empty_page :: node where
  "empty_page =
     Element 1 ''DIV'' [(''id'', ''mdText''), (''class'', ''markdown-body'')] [Text 2 [CHR 0x0A]]"



text \<open>
  A page on which the viewer has opened a \<open>details\<close> element inside a block quote,
  and two parses of \<open>target_html ''<blockquote><details></details></blockquote>''\<close>.
\<close>

definition opened_page :: node where
  "opened_page =
     Element 1 ''DIV'' [(''id'', ''mdText''), (''class'', ''markdown-body'')]
       [Element 2 ''BLOCKQUOTE'' [] [Element 3 ''DETAILS'' [(''open'', '''')] []],
        Element 4 ''DIV'' [] []]"

definition parse_quote :: "string \<Rightarrow> node" where
  "parse_quote s =
     (if s = ''<div><blockquote><details></details></blockquote><div>''
      then Element 10 ''DIV'' []
             [Element 11 ''BLOCKQUOTE'' [] [Element 12 ''DETAILS'' [] []], Element 13 ''DIV'' [] []]
      else Element 10 ''DIV'' [] [])"


text \<open>
  A page on which the viewer has opened a \<open>details\<close> element that is a child of the
  root, and two parses of \<open>target_html ''<details></details>''\<close>.
\<close>

definition empty_toggled :: node where
  "empty_toggled =
     Element 1 ''DIV'' [(''id'', ''mdText''), (''class'', ''markdown-body'')]
       [Element 2 ''DETAILS'' [(''open'', '''')] [], Element 3 ''DIV'' [] []]"

definition parse_toggle :: "string \<Rightarrow> node" where
  "parse_toggle s =
     (if s = ''<div><details></details><div>''
      then Element 10 ''DIV'' [] [Element 11 ''DETAILS'' [] [], Element 12 ''DIV'' [] []]
      else Element 10 ''DIV'' [] [])"

definition parse_toggle_again :: "string \<Rightarrow> node" where
  "parse_toggle_again s =
     (if s = ''<div><details></details><div>''
      then Element 20 ''DIV'' [] [Element 21 ''DETAILS'' [] [], Element 22 ''DIV'' [] []]
      else Element 20 ''DIV'' [] [])"

text \<open>
  A page with an opened \<open>details\<close> element between a paragraph and the trailing
  \<open>div\<close>, and a parse of \<open>target_html ''<h1>x</h1><details></details>''\<close>: the
  element at the index of the opened one is a \<open>details\<close> element again.
\<close>

definition details_page :: node where
  "details_page =
     Element 1 ''DIV'' [(''id'', ''mdText''), (''class'', ''markdown-body'')]
       [Element 2 ''P'' [] [Text 3 ''x''],
        Element 4 ''DETAILS'' [(''open'', '''')] [],
        Element 5 ''DIV'' [] []]"

definition parse_titled :: "string \<Rightarrow> node" where
  "parse_titled s =
     (if s = ''<div><h1>x</h1><details></details><div>''
      then Element 10 ''DIV'' []
             [Element 11 ''H1'' [] [Text 12 ''x''], Element 13 ''DETAILS'' [] [],
              Element 14 ''DIV'' [] []]
      else Element 10 ''DIV'' [] [])"








subsection \<open>The diagram upgrade (lines 391-402)\<close>

text \<open>
  \<open>getElementsByClassName\<close>: the descendants of the root, in tree order, that are
  elements with the class among the whitespace-separated tokens of their \<open>class\<close>
  attribute. The served page has no doctype (line 274), so the document is in quirks
  mode and class names are compared without regard to the case of ASCII letters.
  \<open>textContent\<close> of an element is the text of its text descendants.
\<close>

definition is_space :: "char \<Rightarrow> bool" where
  "is_space c = (c \<in> set [CHR '' '', CHR 0x09, CHR 0x0A, CHR 0x0C, CHR 0x0D])"

fun tokens :: "string \<Rightarrow> string \<Rightarrow> string list" where
  "tokens cur [] = (if cur = [] then [] else [cur])"
| "tokens cur (c # cs) =
     (if is_space c then (if cur = [] then [] else [cur]) @ tokens [] cs
      else tokens (cur @ [c]) cs)"

definition classList :: "node \<Rightarrow> string list" where
  "classList el = (case map_of (attributes el) ''class'' of None \<Rightarrow> [] | Some v \<Rightarrow> tokens [] v)"

fun descendants :: "node \<Rightarrow> node list" where
  "descendants (Element i n a cs) = concat (map (\<lambda>c. c # descendants c) cs)"
| "descendants (Text i v) = []"
| "descendants (Comment i v) = []"

definition getElementsByClassName :: "node \<Rightarrow> string \<Rightarrow> node list" where
  "getElementsByClassName root cls =
     filter (\<lambda>el. isElement el \<and> toLowerCase cls \<in> set (map toLowerCase (classList el)))
       (descendants root)"

fun textContent :: "node \<Rightarrow> string" where
  "textContent (Element i n a cs) = concat (map textContent cs)"
| "textContent (Text i v) = v"
| "textContent (Comment i v) = []"

text \<open>
  \<open>viz.renderSVGElement(src)\<close> is the external diagram renderer: the call throws, or
  returns a promise that is rejected, or one that is fulfilled with a new element.
\<close>

datatype rendering = Throws error | Rejects error | Resolves node

text \<open>
  What the upgrade leaves behind: the errors given to \<open>console.error\<close> by the
  \<open>catch\<close> block, the rejections no handler took, and for every fulfilled promise the
  element it was requested for with the new element.
\<close>

record upgrade_log =
  console_errors :: "error list"
  unhandled_rejections :: "error list"
  fulfilled :: "(nat \<times> node) list"

text \<open>
  The \<open>for\<close> loop inside \<open>try\<close> (the constructor \<open>new window.Viz()\<close> before it is
  taken to succeed). An exception thrown by the call leaves the loop for the \<open>catch\<close>
  block, which logs it. The promise gets a handler for fulfilment only
  (\<open>.then(function(newEl) {...})\<close>), so a rejection has no handler.
\<close>

fun render_each :: "(string \<Rightarrow> rendering) \<Rightarrow> node list \<Rightarrow> upgrade_log \<Rightarrow> upgrade_log" where
  "render_each viz [] u = u"
| "render_each viz (element # rest) u =
     (case viz (textContent element) of
        Throws e \<Rightarrow> u\<lparr>console_errors := console_errors u @ [e]\<rparr>
      | Rejects e \<Rightarrow>
          render_each viz rest (u\<lparr>unhandled_rejections := unhandled_rejections u @ [e]\<rparr>)
      | Resolves newEl \<Rightarrow>
          render_each viz rest (u\<lparr>fulfilled := fulfilled u @ [(nid element, newEl)]\<rparr>))"

text \<open>
  \<open>element.parentNode.replaceWith(newEl)\<close> on the live tree: the element that has the
  node \<open>eid\<close> among its children is replaced by \<open>newEl\<close>. A node that is no longer
  in the live tree changes nothing there.
\<close>

fun replaceWith_parent :: "nat \<Rightarrow> node \<Rightarrow> node \<Rightarrow> node" where
  "replaceWith_parent eid newEl (Element i n a cs) =
     (if eid \<in> set (map nid cs) then newEl
      else Element i n a (map (replaceWith_parent eid newEl) cs))"
| "replaceWith_parent eid newEl (Text i v) = Text i v"
| "replaceWith_parent eid newEl (Comment i v) = Comment i v"

text \<open>
  The fulfilment handler (lines 395-398), and the whole upgrade: the requests in tree
  order, then the handlers of the fulfilled promises, here in the order of the
  requests.
\<close>

definition on_fulfilled :: "node \<Rightarrow> nat \<times> node \<Rightarrow> node" where
  "on_fulfilled tree p = replaceWith_parent (fst p) (setAttribute (snd p) ''width'' ''100%'') tree"

definition upgrade :: "(string \<Rightarrow> rendering) \<Rightarrow> node \<Rightarrow> node \<times> upgrade_log" where
  "upgrade viz markdownBody =
     (let u = render_each viz (getElementsByClassName markdownBody ''language-graphviz'')
                \<lparr>console_errors = [], unhandled_rejections = [], fulfilled = []\<rparr>
      in (foldl on_fulfilled markdownBody (fulfilled u), u))"

text \<open>
  \<open>ws.onmessage\<close> as a whole (lines 330-404): the reconciliation, then the diagram
  upgrade on the reconciled tree. The result is the live tree once the promises are
  settled, the effects of the reconciliation and what the upgrade left behind.
\<close>

definition onmessage ::
  "(string \<Rightarrow> node) \<Rightarrow> (string \<Rightarrow> rendering) \<Rightarrow> node \<Rightarrow> string
     \<Rightarrow> node \<times> effect list \<times> upgrade_log" where
  "onmessage toElement viz markdownBody received_text =
     (let (tree, es) = reconcile toElement markdownBody received_text;
          (tree1, u) = upgrade viz tree
      in (tree1, es, u))"

text \<open>
  An update with two diagram blocks (fenced code with the language \<open>graphviz\<close>) and
  its parse; and a diagram renderer that rejects the source of the first block (it is
  no complete graph) and renders the second.
\<close>

definition diagrams_html :: string where
  "diagrams_html =
     ''<pre><code class='' @ [CHR 0x22] @ ''language-graphviz'' @ [CHR 0x22] @
     ''>digraph {</code></pre>'' @
     ''<pre><code class='' @ [CHR 0x22] @ ''language-graphviz'' @ [CHR 0x22] @
     ''>digraph { a -&gt; b }</code></pre>''"

definition parse_diagrams :: "string \<Rightarrow> node" where
  "parse_diagrams s =
     (if s = target_html diagrams_html
      then Element 10 ''DIV'' []
             [Element 11 ''PRE'' []
                [Element 12 ''CODE'' [(''class'', ''language-graphviz'')] [Text 13 ''digraph {'']],
              Element 14 ''PRE'' []
                [Element 15 ''CODE'' [(''class'', ''language-graphviz'')]
                   [Text 16 ''digraph { a -> b }'']],
              Element 17 ''DIV'' [] []]
      else Element 10 ''DIV'' [] [])"

definition example_viz :: "string \<Rightarrow> rendering" where
  "example_viz src =
     (if src = ''digraph { a -> b }'' then Resolves (Element 100 ''svg'' [] [])
      else Rejects (Error ''syntax error''))"

text \<open>A diagram renderer whose call throws on every source.\<close>

definition throwing_viz :: "string \<Rightarrow> rendering" where
  "throwing_viz src = Throws (Error ''render failed'')"


section \<open>Properties of the server\<close>

lemma forEach_send_frame:
  "currentFocus (fst (forEach_send md d cs s)) = currentFocus s \<and>
   clients (fst (forEach_send md d cs s)) = clients s \<and>
   documents (fst (forEach_send md d cs s)) = documents s \<and>
   documentSettings (fst (forEach_send md d cs s)) = documentSettings s"
  by (induction cs arbitrary: s) (auto simp: Let_def split: sum.splits)

lemma forEach_send_ok:
  assumes "md (Some (getText d)) = Inr html"
  shows "snd (forEach_send md d cs s) = None \<and>
         sent (fst (forEach_send md d cs s)) =
           sent s @ map (\<lambda>c. (c, [(''action'', ''update''), (''text'', html), (''uri'', uri d)])) cs"
  using assms by (induction cs arbitrary: s) (auto simp: Let_def)

lemma sent_to_append: "sent_to c (xs @ ys) = sent_to c xs @ sent_to c ys"
  by (simp add: sent_to_def)

lemma sent_to_broadcast:
  assumes "distinct cs" and "c \<in> set cs"
  shows "sent_to c (map (\<lambda>c. (c, m)) cs) = [m]"
  using assms by (induction cs) (auto simp: sent_to_def filter_empty_conv)

text \<open>
  Claim C3, as amended. The close handler leaves \<open>currentFocus\<close> as it is: after
  open(A), close(A) the focus is still the URI of A. Nothing in the program resets it.
\<close>

theorem close_keeps_focus:
  "currentFocus (onDidClose s d) = currentFocus s \<and>
   currentFocus (onDidClose (fst (onDidOpen md s a)) a) = uri a"
  by (simp add: onDidClose_def onDidOpen_def forEach_send_frame)

text \<open>
  Claim C3 as stated fails: after open(\<open>a.md\<close>), close(\<open>a.md\<close>) on the initial server
  the focus is \<open>a.md\<close>, not the empty string.
\<close>

theorem close_focus_not_empty:
  "currentFocus (onDidClose (fst (onDidOpen example_md (initial_server :: nat server) docA)) docA)
     = ''a.md'' \<and>
   currentFocus (onDidClose (fst (onDidOpen example_md (initial_server :: nat server) docA)) docA)
     \<noteq> ''''"
  by (simp add: onDidClose_def onDidOpen_def initial_server_def docA_def)

text \<open>
  Claim C4, as amended. At connect time the handler sends the new viewer one message at
  once: action \<open>update\<close> and, as text, the rendering of the focused document's current
  text (when the focused URI is open and the renderer returns). It does not wait for the
  next document event.
\<close>

theorem connect_sends_focused_rendering:
  assumes "documents s (currentFocus s) = Some d"
      and "md (Some (getText d)) = Inr html"
  shows "snd (on_connection md s ws) = None \<and>
         (\<exists>m. sent (fst (on_connection md s ws)) = sent s @ [(ws, m)] \<and>
              map_of m ''action'' = Some ''update'' \<and> map_of m ''text'' = Some html)"
  using assms by (simp add: on_connection_def focused_text_def Let_def)

theorem connect_sends_focused_rendering_witness:
  "documents focused_server (currentFocus focused_server) = Some docA \<and>
   example_md (Some (getText docA)) = Inr ''<p>A</p>'' \<and>
   snd (on_connection example_md focused_server 2) = None \<and>
   (\<exists>m. sent (fst (on_connection example_md focused_server 2)) = sent focused_server @ [(2, m)] \<and>
        map_of m ''action'' = Some ''update'' \<and> map_of m ''text'' = Some ''<p>A</p>'')"
proof -
  have h1: "documents focused_server (currentFocus focused_server) = Some docA"
    by (simp add: focused_server_def)
  have h2: "example_md (Some (getText docA)) = Inr ''<p>A</p>''"
    by (simp add: example_md_def docA_def)
  show ?thesis
    using h1 h2
      connect_sends_focused_rendering [of focused_server docA example_md "''<p>A</p>''" 2]
    by simp
qed

text \<open>
  Claim C4 as stated fails: a viewer that connects while \<open>a.md\<close> is focused has
  received a message when the connection handler returns, before any document event.
\<close>

theorem connect_backfills:
  "sent_to 2 (sent (fst (on_connection example_md focused_server 2))) =
     [[(''action'', ''update''), (''text'', ''<p>A</p>'')]] \<and>
   sent_to 2 (sent (fst (on_connection example_md focused_server 2))) \<noteq> []"
  by (simp add: on_connection_def focused_text_def focused_server_def example_md_def
      docA_def sent_to_def Let_def)

text \<open>
  Claim C5 fails on the connect path: the object sent to a viewer that connects while
  \<open>a.md\<close> is focused has the keys \<open>action\<close> and \<open>text\<close> only, and no \<open>uri\<close>.
\<close>

theorem connect_message_has_no_uri:
  "map (map fst) (sent_to 2 (sent (fst (on_connection example_md focused_server 2)))) =
     [[''action'', ''text'']]"
  by (simp add: on_connection_def focused_text_def focused_server_def example_md_def
      docA_def sent_to_def Let_def)

lemma handler_step:
  assumes "distinct (clients t)" and "c \<in> set (clients t)"
      and "md (Some (getText d)) = Inr h"
  shows "currentFocus (fst (forEach_send md d (clients t) (t\<lparr>currentFocus := uri d\<rparr>))) = uri d \<and>
         clients (fst (forEach_send md d (clients t) (t\<lparr>currentFocus := uri d\<rparr>))) = clients t \<and>
         snd (forEach_send md d (clients t) (t\<lparr>currentFocus := uri d\<rparr>)) = None \<and>
         sent_to c (sent (fst (forEach_send md d (clients t) (t\<lparr>currentFocus := uri d\<rparr>)))) =
           sent_to c (sent t) @ [[(''action'', ''update''), (''text'', h), (''uri'', uri d)]]"
  using assms
  by (simp add: forEach_send_frame forEach_send_ok sent_to_append sent_to_broadcast)

lemma didOpenTextDocument_step:
  assumes "distinct (clients t)" and "c \<in> set (clients t)"
      and "md (Some (getText d)) = Inr h"
  shows "currentFocus (fst (didOpenTextDocument md t d)) = uri d \<and>
         clients (fst (didOpenTextDocument md t d)) = clients t \<and>
         snd (didOpenTextDocument md t d) = [] \<and>
         sent_to c (sent (fst (didOpenTextDocument md t d))) =
           sent_to c (sent t) @
             [[(''action'', ''update''), (''text'', h), (''uri'', uri d)],
              [(''action'', ''update''), (''text'', h), (''uri'', uri d)]]"
proof -
  let ?t0 = "t\<lparr>documents := (documents t)(uri d \<mapsto> d)\<rparr>"
  let ?r1 = "onDidOpen md ?t0 d"
  let ?r2 = "onDidChangeContent md (fst ?r1) d"
  have t0: "distinct (clients ?t0)" "c \<in> set (clients ?t0)" using assms(1,2) by simp_all
  have s1: "currentFocus (fst ?r1) = uri d \<and> clients (fst ?r1) = clients ?t0 \<and>
            snd ?r1 = None \<and>
            sent_to c (sent (fst ?r1)) =
              sent_to c (sent ?t0) @ [[(''action'', ''update''), (''text'', h), (''uri'', uri d)]]"
    unfolding onDidOpen_def using handler_step [of ?t0 c md d h] t0 assms(3) by blast
  have t1: "distinct (clients (fst ?r1))" "c \<in> set (clients (fst ?r1))"
    using s1 assms(1,2) by simp_all
  have s2: "currentFocus (fst ?r2) = uri d \<and> clients (fst ?r2) = clients (fst ?r1) \<and>
            snd ?r2 = None \<and>
            sent_to c (sent (fst ?r2)) =
              sent_to c (sent (fst ?r1)) @
                [[(''action'', ''update''), (''text'', h), (''uri'', uri d)]]"
    unfolding onDidChangeContent_def
    using handler_step [of "fst ?r1" c md d h] t1 assms(3) by blast
  have r: "didOpenTextDocument md t d = (fst ?r2, thrown (snd ?r1) @ thrown (snd ?r2))"
    unfolding didOpenTextDocument_def by (simp add: split_beta)
  show ?thesis unfolding r using s1 s2 by (simp add: thrown_def)
qed

lemma didChangeTextDocument_step:
  assumes "distinct (clients t)" and "c \<in> set (clients t)"
      and "md (Some (getText d)) = Inr h"
  shows "currentFocus (fst (didChangeTextDocument md t d)) = uri d \<and>
         clients (fst (didChangeTextDocument md t d)) = clients t \<and>
         snd (didChangeTextDocument md t d) = [] \<and>
         sent_to c (sent (fst (didChangeTextDocument md t d))) =
           sent_to c (sent t) @ [[(''action'', ''update''), (''text'', h), (''uri'', uri d)]]"
proof -
  let ?t0 = "t\<lparr>documents := (documents t)(uri d \<mapsto> d)\<rparr>"
  let ?r1 = "onDidChangeContent md ?t0 d"
  have t0: "distinct (clients ?t0)" "c \<in> set (clients ?t0)" using assms(1,2) by simp_all
  have s1: "currentFocus (fst ?r1) = uri d \<and> clients (fst ?r1) = clients ?t0 \<and>
            snd ?r1 = None \<and>
            sent_to c (sent (fst ?r1)) =
              sent_to c (sent ?t0) @ [[(''action'', ''update''), (''text'', h), (''uri'', uri d)]]"
    unfolding onDidChangeContent_def using handler_step [of ?t0 c md d h] t0 assms(3) by blast
  have r: "didChangeTextDocument md t d = (fst ?r1, thrown (snd ?r1))"
    unfolding didChangeTextDocument_def by (simp add: split_beta)
  show ?thesis unfolding r using s1 by (simp add: thrown_def)
qed

text \<open>
  Claim C7, as amended. For the editor events open(A), open(B), change(A): the focus
  is A after the first event, B after the second and A after the third, and no handler
  throws. An open event runs the open handler and then the content-change handler, so
  it sends every connected viewer two messages, a change event one; each message is
  the object with action \<open>update\<close>, the rendering of that event's document text, and
  that document's URI.
\<close>

theorem focus_determinism:
  assumes "distinct (clients s)" and "c \<in> set (clients s)"
      and "md (Some (getText a)) = Inr ha"
      and "md (Some (getText b)) = Inr hb"
      and "md (Some (getText a2)) = Inr ha2"
      and "uri a2 = uri a"
  shows "(let r1 = didOpenTextDocument md s a;
              r2 = didOpenTextDocument md (fst r1) b;
              r3 = didChangeTextDocument md (fst r2) a2
          in currentFocus (fst r1) = uri a \<and> currentFocus (fst r2) = uri b \<and>
             currentFocus (fst r3) = uri a \<and>
             snd r1 = [] \<and> snd r2 = [] \<and> snd r3 = [] \<and>
             sent_to c (sent (fst r1)) =
               sent_to c (sent s) @
                 [[(''action'', ''update''), (''text'', ha), (''uri'', uri a)],
                  [(''action'', ''update''), (''text'', ha), (''uri'', uri a)]] \<and>
             sent_to c (sent (fst r2)) =
               sent_to c (sent (fst r1)) @
                 [[(''action'', ''update''), (''text'', hb), (''uri'', uri b)],
                  [(''action'', ''update''), (''text'', hb), (''uri'', uri b)]] \<and>
             sent_to c (sent (fst r3)) =
               sent_to c (sent (fst r2)) @
                 [[(''action'', ''update''), (''text'', ha2), (''uri'', uri a)]])"
proof -
  let ?r1 = "didOpenTextDocument md s a"
  let ?r2 = "didOpenTextDocument md (fst ?r1) b"
  let ?r3 = "didChangeTextDocument md (fst ?r2) a2"
  have e1: "currentFocus (fst ?r1) = uri a \<and> clients (fst ?r1) = clients s \<and> snd ?r1 = [] \<and>
      sent_to c (sent (fst ?r1)) =
        sent_to c (sent s) @
          [[(''action'', ''update''), (''text'', ha), (''uri'', uri a)],
           [(''action'', ''update''), (''text'', ha), (''uri'', uri a)]]"
    using didOpenTextDocument_step [of s c md a ha] assms(1,2,3) by blast
  have c1: "distinct (clients (fst ?r1))" "c \<in> set (clients (fst ?r1))"
    using e1 assms(1,2) by simp_all
  have e2: "currentFocus (fst ?r2) = uri b \<and> clients (fst ?r2) = clients (fst ?r1) \<and>
      snd ?r2 = [] \<and>
      sent_to c (sent (fst ?r2)) =
        sent_to c (sent (fst ?r1)) @
          [[(''action'', ''update''), (''text'', hb), (''uri'', uri b)],
           [(''action'', ''update''), (''text'', hb), (''uri'', uri b)]]"
    using didOpenTextDocument_step [of "fst ?r1" c md b hb] c1 assms(4) by blast
  have c2: "distinct (clients (fst ?r2))" "c \<in> set (clients (fst ?r2))"
    using e2 c1 by simp_all
  have e3: "currentFocus (fst ?r3) = uri a2 \<and> snd ?r3 = [] \<and>
      sent_to c (sent (fst ?r3)) =
        sent_to c (sent (fst ?r2)) @
          [[(''action'', ''update''), (''text'', ha2), (''uri'', uri a2)]]"
    using didChangeTextDocument_step [of "fst ?r2" c md a2 ha2] c2 assms(5) by blast
  show ?thesis unfolding Let_def using e1 e2 e3 assms(6) by simp
qed

theorem focus_determinism_witness:
  "distinct (clients connected_server) \<and> 1 \<in> set (clients connected_server) \<and>
   uri docA2 = uri docA \<and>
   (let r1 = didOpenTextDocument example_md connected_server docA;
        r2 = didOpenTextDocument example_md (fst r1) docB;
        r3 = didChangeTextDocument example_md (fst r2) docA2
    in currentFocus (fst r3) = ''a.md'' \<and>
       snd r1 = [] \<and> snd r2 = [] \<and> snd r3 = [] \<and>
       sent_to 1 (sent (fst r3)) =
         [[(''action'', ''update''), (''text'', ''<p>A</p>''), (''uri'', ''a.md'')],
          [(''action'', ''update''), (''text'', ''<p>A</p>''), (''uri'', ''a.md'')],
          [(''action'', ''update''), (''text'', ''<p>B</p>''), (''uri'', ''b.md'')],
          [(''action'', ''update''), (''text'', ''<p>B</p>''), (''uri'', ''b.md'')],
          [(''action'', ''update''), (''text'', ''<p>A2</p>''), (''uri'', ''a.md'')]])"
proof -
  have h1: "distinct (clients connected_server)" by (simp add: connected_server_def)
  have h2: "1 \<in> set (clients connected_server)" by (simp add: connected_server_def)
  have h3: "example_md (Some (getText docA)) = Inr ''<p>A</p>''"
    by (simp add: example_md_def docA_def)
  have h4: "example_md (Some (getText docB)) = Inr ''<p>B</p>''"
    by (simp add: example_md_def docB_def)
  have h5: "example_md (Some (getText docA2)) = Inr ''<p>A2</p>''"
    by (simp add: example_md_def docA2_def)
  have h6: "uri docA2 = uri docA" by (simp add: docA_def docA2_def)
  have h7: "sent_to 1 (sent connected_server) = []"
    by (simp add: connected_server_def sent_to_def)
  have h8: "uri docA = ''a.md''" "uri docB = ''b.md''"
    by (simp_all add: docA_def docB_def)
  show ?thesis
    using focus_determinism [of connected_server 1 example_md docA "''<p>A</p>''"
        docB "''<p>B</p>''" docA2 "''<p>A2</p>''"] h1 h2 h3 h4 h5 h6 h7 h8
    by (simp add: Let_def)
qed

text \<open>
  Claim C7 as stated fails. A single open event on a server with one viewer connected
  sends that viewer two messages, not one: the open handler broadcasts, and so does
  the content-change handler, which the document manager fires on open as well.
\<close>

theorem open_broadcasts_twice:
  "currentFocus (fst (didOpenTextDocument example_md connected_server docA)) = ''a.md'' \<and>
   sent_to 1 (sent connected_server) = [] \<and>
   sent_to 1 (sent (fst (didOpenTextDocument example_md connected_server docA))) =
     [[(''action'', ''update''), (''text'', ''<p>A</p>''), (''uri'', ''a.md'')],
      [(''action'', ''update''), (''text'', ''<p>A</p>''), (''uri'', ''a.md'')]] \<and>
   length (sent_to 1 (sent (fst (didOpenTextDocument example_md connected_server docA)))) = 2"
  by (simp add: didOpenTextDocument_def onDidOpen_def onDidChangeContent_def
      connected_server_def example_md_def docA_def sent_to_def Let_def thrown_def)

text \<open>
  Claim C9. When the focus is the empty string and the document manager has no entry
  for it (as before any document was opened), the connection handler calls the renderer
  with \<open>undefined\<close>: the call is logged with argument \<open>None\<close>, and whether the handler
  throws (and sends nothing) or sends one message is decided by the renderer's answer
  to \<open>undefined\<close> alone.
\<close>

theorem connect_renders_undefined:
  assumes "currentFocus s = ''''" and "documents s '''' = None"
  shows "focused_text s = None \<and>
         render_calls (fst (on_connection md s ws)) = render_calls s @ [None] \<and>
         snd (on_connection md s ws) = (case md None of Inl e \<Rightarrow> Some e | Inr h \<Rightarrow> None) \<and>
         length (sent (fst (on_connection md s ws))) =
           (case md None of Inl e \<Rightarrow> length (sent s) | Inr h \<Rightarrow> Suc (length (sent s)))"
  using assms
  by (simp add: on_connection_def focused_text_def Let_def split: sum.splits)

theorem connect_renders_undefined_witness:
  "currentFocus (initial_server :: nat server) = '''' \<and>
   documents (initial_server :: nat server) '''' = None \<and>
   render_calls (fst (on_connection example_md (initial_server :: nat server) 1)) = [None] \<and>
   snd (on_connection example_md (initial_server :: nat server) 1) =
     Some (Error ''Input data should be a String'') \<and>
   sent (fst (on_connection example_md (initial_server :: nat server) 1)) = []"
proof -
  have h1: "currentFocus (initial_server :: nat server) = ''''"
    by (simp add: initial_server_def)
  have h2: "documents (initial_server :: nat server) '''' = None"
    by (simp add: initial_server_def)
  have h3: "example_md None = Inl (Error ''Input data should be a String'')"
    by (simp add: example_md_def)
  have h4: "render_calls (initial_server :: nat server) = []"
       "sent (initial_server :: nat server) = []"
    by (simp_all add: initial_server_def)
  show ?thesis
    using connect_renders_undefined [of "initial_server :: nat server" example_md 1]
      h1 h2 h3 h4
    by simp
qed


section \<open>Properties of the reconciler\<close>

lemma map_of_set_attr: "map_of (set_attr k v a) = (map_of a)(k \<mapsto> v)"
  by (induction a) (auto simp: fun_eq_iff)

lemma map_of_remove_attr: "map_of (remove_attr k a) = (map_of a)(k := None)"
  by (induction a) (auto simp: remove_attr_def fun_eq_iff)

lemma map_add_upd_left: "m(k \<mapsto> v) ++ n = m ++ ([k \<mapsto> v] ++ n)"
proof (rule ext)
  fix x
  show "(m(k \<mapsto> v) ++ n) x = (m ++ ([k \<mapsto> v] ++ n)) x"
    by (cases "n x") (simp_all add: map_add_def)
qed

lemma map_add_same: "m k = Some v \<Longrightarrow> m ++ ([k \<mapsto> v] ++ n) = m ++ n"
proof (rule ext)
  fix x
  assume "m k = Some v"
  then show "(m ++ ([k \<mapsto> v] ++ n)) x = (m ++ n) x"
    by (cases "n x") (simp_all add: map_add_def)
qed

lemma set_attrs_step:
  "fst (set_attrs i ((k, v) # ps) a) =
     (if map_of a k = Some v then fst (set_attrs i ps a)
      else fst (set_attrs i ps (set_attr k v a)))"
  by (simp add: split_beta)

lemma map_of_rev_Cons: "map_of (rev ((k, v) # ps)) = [k \<mapsto> v] ++ map_of (rev ps)"
  by simp

lemma map_of_set_attrs:
  "map_of (fst (set_attrs i ps a)) = map_of a ++ map_of (rev ps)"
proof (induction ps arbitrary: a)
  case Nil
  show ?case by simp
next
  case (Cons p ps)
  obtain k v where p: "p = (k, v)" by (cases p)
  show ?case
  proof (cases "map_of a k = Some v")
    case True
    have "map_of (fst (set_attrs i ((k, v) # ps) a)) = map_of a ++ map_of (rev ps)"
      unfolding set_attrs_step using True Cons [of a] by simp
    also have "\<dots> = map_of a ++ ([k \<mapsto> v] ++ map_of (rev ps))"
      by (rule map_add_same [symmetric]) (rule True)
    finally show ?thesis unfolding p map_of_rev_Cons .
  next
    case False
    have "map_of (fst (set_attrs i ((k, v) # ps) a)) =
            map_of (set_attr k v a) ++ map_of (rev ps)"
      unfolding set_attrs_step using False Cons [of "set_attr k v a"] by simp
    also have "\<dots> = (map_of a)(k \<mapsto> v) ++ map_of (rev ps)"
      unfolding map_of_set_attr ..
    also have "\<dots> = map_of a ++ ([k \<mapsto> v] ++ map_of (rev ps))"
      by (rule map_add_upd_left)
    finally show ?thesis unfolding p map_of_rev_Cons .
  qed
qed

lemma map_of_remove_attrs:
  "map_of (fst (remove_attrs i b ks a)) k =
     (if k \<in> set ks \<and> map_of b k = None then None else map_of a k)"
  by (induction ks arbitrary: a) (auto simp: split_beta map_of_remove_attr)

lemma map_of_morphAttrs: "map_of (fst (morphAttrs i a b)) = map_of b"
proof
  fix k
  let ?a1 = "fst (set_attrs i (rev b) a)"
  have a1: "map_of ?a1 = map_of a ++ map_of b"
    by (simp add: map_of_set_attrs)
  have "map_of (fst (morphAttrs i a b)) k =
          (if k \<in> set (map fst ?a1) \<and> map_of b k = None then None else map_of ?a1 k)"
    by (simp add: morphAttrs_def split_beta map_of_remove_attrs)
  also have "\<dots> = map_of b k"
  proof (cases "map_of b k")
    case None
    then show ?thesis
      using a1 by (auto simp: map_add_def map_of_eq_None_iff [symmetric] simp del: map_of_eq_None_iff)
  next
    case (Some v)
    then show ?thesis using a1 by (simp add: map_add_def)
  qed
  finally show "map_of (fst (morphAttrs i a b)) k = map_of b k" .
qed

lemma attrs_equal_iff: "attrs_equal a b \<longleftrightarrow> map_of a = map_of b"
proof
  assume h: "attrs_equal a b"
  show "map_of a = map_of b"
  proof
    fix k
    show "map_of a k = map_of b k"
    proof (cases "k \<in> fst ` set a \<union> fst ` set b")
      case True
      then show ?thesis using h by (auto simp: attrs_equal_def list_all_iff)
    next
      case False
      then have "map_of a k = None" "map_of b k = None"
        by (simp_all add: map_of_eq_None_iff)
      then show ?thesis by simp
    qed
  qed
next
  assume "map_of a = map_of b"
  then show "attrs_equal a b" by (simp add: attrs_equal_def list_all_iff)
qed

lemma isEqualNodes_refl_aux:
  "(\<And>c. c \<in> set cs \<Longrightarrow> isEqualNode c c) \<Longrightarrow> isEqualNodes cs cs"
  by (induction cs) auto

lemma isEqualNode_refl: "isEqualNode x x"
  by (induction x) (auto simp: attrs_equal_iff intro: isEqualNodes_refl_aux)

lemma isEqualNodes_refl: "isEqualNodes xs xs"
  by (rule isEqualNodes_refl_aux) (rule isEqualNode_refl)

lemma morphEl_page:
  "morphEl page_options (Element i n a cs) t =
     (let t1 = (if hasAttribute (Element i n a cs) ''open'' then setAttribute t ''open'' ''true''
                else t)
      in if isEqualNode (Element i n a cs) t1 then (Element i n a cs, [])
         else (Element i n (fst (morphAttrs i a (attributes t1)))
                 (fst (morphChildren page_options i cs (childNodes t1))),
               ScrollIntoView i # snd (morphAttrs i a (attributes t1)) @
                 snd (morphChildren page_options i cs (childNodes t1))))"
  by (simp add: page_options_def onBeforeElUpdated_def onElUpdated_def Let_def split_beta)

lemma compareNodeNames_refl [simp]: "compareNodeNames n n"
  by (simp add: compareNodeNames_def)

text \<open>
  Tag names are matched across the case of their letters when one name is in upper
  case throughout: \<open>DIV\<close> matches \<open>div\<close>, but \<open>Div\<close> does not.
\<close>

lemma compareNodeNames_folds_case:
  "compareNodeNames ''DIV'' ''div'' \<and> compareNodeNames ''div'' ''DIV'' \<and>
   \<not> compareNodeNames ''div'' ''Div'' \<and> \<not> compareNodeNames ''DIV'' ''P'' \<and>
   \<not> compareNodeNames ''svg'' ''PRE''"
  by code_simp



lemma childNodes_setAttribute [simp]: "childNodes (setAttribute t k v) = childNodes t"
  by (cases t) simp_all

lemma isElement_setAttribute [simp]: "isElement (setAttribute t k v) = isElement t"
  by (cases t) simp_all

lemma open_after_setAttribute:
  "isElement t \<Longrightarrow> map_of (attributes (setAttribute t ''open'' v)) ''open'' = Some v"
  by (cases t) (simp_all add: map_of_set_attr)

lemma compatible_isElement: "compatible f t \<Longrightarrow> isElement t = isElement f"
  by (cases f; cases t) simp_all

lemma compatible_setAttribute [simp]: "compatible f (setAttribute t k v) = compatible f t"
  by (cases f; cases t) simp_all

lemma with_open_of_plain [simp]: "\<not> isElement f \<Longrightarrow> with_open_of f t = t"
  by (cases f) (simp_all add: with_open_of_def hasAttribute_def)

lemma childNodes_with_open_of [simp]: "childNodes (with_open_of f t) = childNodes t"
  by (simp add: with_open_of_def)


lemma morphEl_page_settled:
  "morphEl page_options (Element i n a cs) t =
     (if settled (Element i n a cs) t then (Element i n a cs, [])
      else (Element i n
              (fst (morphAttrs i a (attributes (with_open_of (Element i n a cs) t))))
              (fst (morphChildren page_options i cs (childNodes t))),
            ScrollIntoView i #
              snd (morphAttrs i a (attributes (with_open_of (Element i n a cs) t))) @
              snd (morphChildren page_options i cs (childNodes t))))"
  unfolding morphEl_page settled_def with_open_of_def by (simp add: Let_def)





lemma morphdom_fst_snd:
  "morphdom opts (Element i n a cs) t =
     (Element i n a (fst (morphChildren opts i cs (childNodes t))),
      snd (morphChildren opts i cs (childNodes t)))"
  by (simp add: split_beta)

lemma page_induct [case_names Element Text Comment Cleanup Append Walk]:
  assumes "\<And>i n a cs t.
             (\<And>t1. t1 = (if hasAttribute (Element i n a cs) ''open''
                           then setAttribute t ''open'' ''true'' else t) \<Longrightarrow>
                    \<not> isEqualNode (Element i n a cs) t1 \<Longrightarrow> Q i cs (childNodes t1)) \<Longrightarrow>
             P (Element i n a cs) t"
      and "\<And>i v t. P (Text i v) t"
      and "\<And>i v t. P (Comment i v) t"
      and "\<And>p fs. Q p fs []"
      and "\<And>p t ts. Q p [] ts \<Longrightarrow> Q p [] (t # ts)"
      and "\<And>p f fs t ts.
             (compatible f t \<Longrightarrow> isElement f \<Longrightarrow> P f t) \<Longrightarrow>
             (compatible f t \<Longrightarrow> Q p fs ts) \<Longrightarrow>
             (\<not> compatible f t \<Longrightarrow> Q p fs (t # ts)) \<Longrightarrow> Q p (f # fs) (t # ts)"
  shows "P f t" and "Q p fs ts"
proof -
  have "(opts = page_options \<longrightarrow> P f t)" and "(opts' = page_options \<longrightarrow> Q p fs ts)"
    for opts opts'
  proof (induction opts f t and opts' p fs ts rule: morphEl_morphChildren.induct)
    case (1 opts i n a cs toEl)
    show ?case
    proof
      assume o: "opts = page_options"
      show "P (Element i n a cs) toEl"
      proof (rule assms(1))
        fix t1
        assume t1: "t1 = (if hasAttribute (Element i n a cs) ''open''
                          then setAttribute toEl ''open'' ''true'' else toEl)"
          and ne: "\<not> isEqualNode (Element i n a cs) t1"
        have cb: "opt_onBeforeElUpdated opts (Element i n a cs) toEl =
                    (True, t1, [ScrollIntoView i])"
          using o t1 ne by (simp add: page_options_def onBeforeElUpdated_def Let_def)
        show "Q i cs (childNodes t1)"
          using "1.IH" [of True "(t1, [ScrollIntoView i])" t1 "[ScrollIntoView i]"
              "morphAttrs i a (attributes t1)" "fst (morphAttrs i a (attributes t1))"
              "snd (morphAttrs i a (attributes t1))"] cb o
          by simp
      qed
    qed
  next
    case (2 opts i v toEl)
    show ?case using assms(2) by simp
  next
    case (3 opts i v toEl)
    show ?case using assms(3) by simp
  next
    case (4 opts p fs)
    show ?case using assms(4) by simp
  next
    case (5 opts p t ts)
    then show ?case using assms(5) by simp
  next
    case (6 opts p f fs t ts)
    show ?case
    proof
      assume o: "opts = page_options"
      show "Q p (f # fs) (t # ts)"
      proof (rule assms(6))
        assume "compatible f t" "isElement f"
        then show "P f t" using "6.IH"(1) o by simp
      next
        assume c: "compatible f t"
        obtain xa y where xy: "(xa, y) =
            (if isElement f then morphEl opts f t else updateNodeValue f t)"
          by (metis surj_pair)
        show "Q p fs ts" using "6.IH"(2) [OF c refl xy] o by simp
      next
        assume "\<not> compatible f t"
        then show "Q p fs (t # ts)" using "6.IH"(3) o by simp
      qed
    qed
  qed
  then show "P f t" and "Q p fs ts" by simp_all
qed





text \<open>
  A \<open>details\<close> element directly under the root that the viewer opened is settled
  once the first application has rewritten its attribute: the second application of
  the same HTML has no effect.
\<close>

lemma opened_top_level_is_quiet:
  "snd (reconcile parse_toggle empty_toggled ''<details></details>'') =
     [ScrollIntoView 2, SetAttribute 2 ''open'' ''true''] \<and>
   snd (reconcile parse_toggle_again
          (fst (reconcile parse_toggle empty_toggled ''<details></details>''))
          ''<details></details>'') = []"
  by code_simp

text \<open>
  Claim C8. After any number of reconciliations the root is the same node, with its
  tag and its attributes as before: only the list of its children is new.
\<close>

theorem root_identity_stable:
  "\<exists>cs1. reconcile_all toElement (Element i n a cs) msgs = Element i n a cs1"
proof (induction msgs arbitrary: cs)
  case Nil
  show ?case by simp
next
  case (Cons m ms)
  have "fst (reconcile toElement (Element i n a cs) m) =
          Element i n a (fst (morphChildren page_options i cs
                                (childNodes (toElement (target_html m)))))"
    by (simp add: reconcile_def split_beta)
  then show ?case using Cons.IH by simp
qed

lemma ids_setAttribute [simp]: "ids (setAttribute t k v) = ids t"
  by (cases t) simp_all

lemma ids_childNodes: "set (concat (map ids (childNodes t))) \<subseteq> set (ids t)"
  by (cases t) auto

lemma open_ids_subset: "set (open_ids x) \<subseteq> set (ids x)"
  by (induction x) auto

lemma open_ids_list_subset: "set (concat (map open_ids xs)) \<subseteq> set (concat (map ids xs))"
  using open_ids_subset by fastforce

lemma ids_updateNodeValue [simp]: "ids (fst (updateNodeValue f t)) = ids f"
  by (cases f; cases t) simp_all

lemma open_ids_updateNodeValue [simp]: "open_ids (fst (updateNodeValue f t)) = open_ids f"
  by (cases f; cases t) simp_all

lemma morph_ids_subset_el:
  "set (ids (fst (morphEl page_options f t))) \<subseteq> set (ids f) \<union> set (ids t)"
  and morph_ids_subset:
  "set (concat (map ids (fst (morphChildren page_options p fs ts)))) \<subseteq>
     set (concat (map ids fs)) \<union> set (concat (map ids ts))"
proof (induction f t and p fs ts rule: page_induct)
  case (Element i n a cs t)
  let ?f = "Element i n a cs"
  let ?t1 = "if hasAttribute ?f ''open'' then setAttribute t ''open'' ''true'' else t"
  show ?case
  proof (cases "isEqualNode ?f ?t1")
    case True
    then show ?thesis unfolding morphEl_page by (auto simp: Let_def)
  next
    case False
    have kids: "childNodes ?t1 = childNodes t" by simp
    have "set (concat (map ids (fst (morphChildren page_options i cs (childNodes ?t1))))) \<subseteq>
            set (concat (map ids cs)) \<union> set (concat (map ids (childNodes ?t1)))"
      using Element.IH [OF refl False] .
    then have "set (concat (map ids (fst (morphChildren page_options i cs (childNodes t))))) \<subseteq>
            set (concat (map ids cs)) \<union> set (ids t)"
      unfolding kids using ids_childNodes [of t] by blast
    then show ?thesis using False unfolding morphEl_page Let_def kids by auto
  qed
next
  case (Text i v t)
  show ?case by simp
next
  case (Comment i v t)
  show ?case by simp
next
  case (Cleanup p fs)
  show ?case by simp
next
  case (Append p t ts)
  then show ?case by (auto simp: split_beta)
next
  case (Walk p f fs t ts)
  show ?case
  proof (cases "compatible f t")
    case True
    have "set (ids (fst (if isElement f then morphEl page_options f t else updateNodeValue f t)))
            \<subseteq> set (ids f) \<union> set (ids t)"
      using Walk.IH(1) [OF True] by (cases "isElement f") auto
    then show ?thesis using True Walk.IH(2) [OF True] by (auto simp: split_beta)
  next
    case False
    then show ?thesis using Walk.IH(3) [OF False] by (auto simp: split_beta)
  qed
qed

lemma open_stays_el:
  "isElement f \<Longrightarrow> compatible f t \<Longrightarrow> distinct (ids f) \<Longrightarrow>
   set (ids f) \<inter> set (ids t) = {} \<Longrightarrow> e \<in> set (open_ids f) \<Longrightarrow>
   e \<in> set (ids (fst (morphEl page_options f t))) \<Longrightarrow>
   e \<in> set (open_ids (fst (morphEl page_options f t)))"
  and open_stays:
  "distinct (concat (map ids fs)) \<Longrightarrow>
   set (concat (map ids fs)) \<inter> set (concat (map ids ts)) = {} \<Longrightarrow>
   e \<in> set (concat (map open_ids fs)) \<Longrightarrow>
   e \<in> set (concat (map ids (fst (morphChildren page_options p fs ts)))) \<Longrightarrow>
   e \<in> set (concat (map open_ids (fst (morphChildren page_options p fs ts))))"
proof (induction f t and p fs ts rule: page_induct)
  case (Element i n a cs t)
  let ?f = "Element i n a cs"
  let ?t1 = "if hasAttribute ?f ''open'' then setAttribute t ''open'' ''true'' else t"
  show ?case
  proof (cases "isEqualNode ?f ?t1")
    case True
    then have "fst (morphEl page_options ?f t) = ?f"
      unfolding morphEl_page by (simp add: Let_def)
    then show ?thesis using Element.prems(5) by simp
  next
    case False
    let ?a1 = "fst (morphAttrs i a (attributes ?t1))"
    let ?cs1 = "fst (morphChildren page_options i cs (childNodes ?t1))"
    have r: "fst (morphEl page_options ?f t) = Element i n ?a1 ?cs1"
      using False unfolding morphEl_page by (simp add: Let_def)
    have a1: "map_of ?a1 = map_of (attributes ?t1)" by (rule map_of_morphAttrs)
    have el: "isElement t" using Element.prems(2) compatible_isElement by fastforce
    show ?thesis
    proof (cases "e \<in> set (concat (map open_ids cs))")
      case True
      then have ein: "e \<in> set (concat (map ids cs))" using open_ids_list_subset by blast
      then have "e \<noteq> i" using Element.prems(3) by auto
      then have e1: "e \<in> set (concat (map ids ?cs1))" using Element.prems(6) unfolding r by simp
      have d: "distinct (concat (map ids cs))" using Element.prems(3) by simp
      have kids: "childNodes ?t1 = childNodes t" by simp
      have sub1: "set (concat (map ids (childNodes ?t1))) \<subseteq> set (ids t)"
        unfolding kids by (rule ids_childNodes)
      have sub2: "set (concat (map ids cs)) \<subseteq> set (ids ?f)" by auto
      have dj: "set (concat (map ids cs)) \<inter> set (concat (map ids (childNodes ?t1))) = {}"
        using Element.prems(4) sub1 sub2 by blast
      have "e \<in> set (concat (map open_ids ?cs1))"
        using Element.IH [OF refl False d dj True e1] .
      then show ?thesis unfolding r by simp
    next
      case False
      then have "e = i" and h: "map_of a ''open'' \<noteq> None"
        using Element.prems(5) by (auto split: if_splits)
      then have "hasAttribute ?f ''open''" by (simp add: hasAttribute_def)
      then have "map_of (attributes ?t1) ''open'' = Some ''true''"
        using open_after_setAttribute [OF el] by simp
      then have "map_of ?a1 ''open'' \<noteq> None" using a1 by simp
      then show ?thesis unfolding r using \<open>e = i\<close> by simp
    qed
  qed
next
  case (Text i v t)
  then show ?case by simp
next
  case (Comment i v t)
  then show ?case by simp
next
  case (Cleanup p fs)
  then show ?case by simp
next
  case (Append p t ts)
  then show ?case by simp
next
  case (Walk p f fs t ts)
  have df: "distinct (ids f)" and dfs: "distinct (concat (map ids fs))"
    and ffs: "set (ids f) \<inter> set (concat (map ids fs)) = {}"
    using Walk.prems(1) by simp_all
  have ft: "set (ids f) \<inter> set (ids t) = {}"
    and fts: "set (ids f) \<inter> set (concat (map ids ts)) = {}"
    and fst': "set (concat (map ids fs)) \<inter> set (ids t) = {}"
    and fsts: "set (concat (map ids fs)) \<inter> set (concat (map ids ts)) = {}"
    using Walk.prems(2) by auto
  show ?case
  proof (cases "compatible f t")
    case True
    let ?f1 = "fst (if isElement f then morphEl page_options f t else updateNodeValue f t)"
    let ?rest = "fst (morphChildren page_options p fs ts)"
    have r: "fst (morphChildren page_options p (f # fs) (t # ts)) = ?f1 # ?rest"
      using True by (simp add: split_beta)
    have s1: "set (ids ?f1) \<subseteq> set (ids f) \<union> set (ids t)"
      using morph_ids_subset_el [of f t] by (cases "isElement f") auto
    have s2: "set (concat (map ids ?rest)) \<subseteq> set (concat (map ids fs)) \<union> set (concat (map ids ts))"
      by (rule morph_ids_subset)
    have ein: "e \<in> set (ids ?f1) \<or> e \<in> set (concat (map ids ?rest))"
      using Walk.prems(4) unfolding r by simp
    show ?thesis
    proof (cases "e \<in> set (open_ids f)")
      case True
      then have ef: "e \<in> set (ids f)" using open_ids_subset by blast
      then have "e \<notin> set (concat (map ids ?rest))" using s2 ffs fts by blast
      then have e1: "e \<in> set (ids ?f1)" using ein by simp
      have "e \<in> set (open_ids ?f1)"
      proof (cases "isElement f")
        case True
        then show ?thesis
          using Walk.IH(1) [OF \<open>compatible f t\<close> True True \<open>compatible f t\<close> df ft \<open>e \<in> set (open_ids f)\<close>] e1
          by simp
      next
        case False
        then show ?thesis using \<open>e \<in> set (open_ids f)\<close> by simp
      qed
      then show ?thesis unfolding r by simp
    next
      case False
      then have efs: "e \<in> set (concat (map open_ids fs))" using Walk.prems(3) by simp
      then have "e \<in> set (concat (map ids fs))" using open_ids_list_subset by blast
      then have "e \<notin> set (ids ?f1)" using s1 ffs fst' by blast
      then have "e \<in> set (concat (map ids ?rest))" using ein by simp
      then have "e \<in> set (concat (map open_ids ?rest))"
        using Walk.IH(2) [OF True dfs fsts efs] by simp
      then show ?thesis unfolding r by simp
    qed
  next
    case False
    let ?rest = "fst (morphChildren page_options p fs (t # ts))"
    have r: "fst (morphChildren page_options p (f # fs) (t # ts)) = ?rest"
      using False by (simp add: split_beta)
    have s2: "set (concat (map ids ?rest)) \<subseteq>
                set (concat (map ids fs)) \<union> set (concat (map ids (t # ts)))"
      by (rule morph_ids_subset)
    have ein: "e \<in> set (concat (map ids ?rest))" using Walk.prems(4) unfolding r .
    have tts: "set (concat (map ids (t # ts))) = set (ids t) \<union> set (concat (map ids ts))"
      by simp
    have dj: "set (concat (map ids fs)) \<inter> set (concat (map ids (t # ts))) = {}"
      unfolding tts using fst' fsts by blast
    have "e \<notin> set (open_ids f)"
    proof
      assume "e \<in> set (open_ids f)"
      then have "e \<in> set (ids f)" using open_ids_subset by blast
      then show False using ein s2 ffs ft fts unfolding tts by blast
    qed
    then have efs: "e \<in> set (concat (map open_ids fs))" using Walk.prems(3) by simp
    show ?thesis unfolding r using Walk.IH(3) [OF False dfs dj efs ein] .
  qed
qed

text \<open>
  Whatever the walk does, an element that carries \<open>open\<close> and is still in the
  document after the reconciliation still carries \<open>open\<close>.
\<close>

lemma open_kept_while_in_document:
  assumes "distinct (ids page)"
      and "set (ids page) \<inter> set (ids (toElement (target_html received_text))) = {}"
      and "e \<in> set (open_ids page)"
      and "e \<in> set (ids (fst (reconcile toElement page received_text)))"
  shows "e \<in> set (open_ids (fst (reconcile toElement page received_text)))"
proof (cases page)
  case (Element i n a cs)
  let ?T = "toElement (target_html received_text)"
  let ?rs = "fst (morphChildren page_options i cs (childNodes ?T))"
  have r: "fst (reconcile toElement page received_text) = Element i n a ?rs"
    unfolding reconcile_def Element morphdom_fst_snd by simp
  show ?thesis
  proof (cases "e \<in> set (concat (map open_ids cs))")
    case True
    then have "e \<in> set (concat (map ids cs))" using open_ids_list_subset by blast
    then have "e \<noteq> i" using assms(1) Element by auto
    then have e1: "e \<in> set (concat (map ids ?rs))" using assms(4) unfolding r by simp
    have d: "distinct (concat (map ids cs))" using assms(1) Element by simp
    have dj: "set (concat (map ids cs)) \<inter> set (concat (map ids (childNodes ?T))) = {}"
      using assms(2) ids_childNodes [of ?T] Element by auto
    have "e \<in> set (concat (map open_ids ?rs))" using open_stays [OF d dj True e1] .
    then show ?thesis unfolding r by simp
  next
    case False
    then have "e = i" and "map_of a ''open'' \<noteq> None"
      using assms(3) Element by (auto split: if_splits)
    then show ?thesis unfolding r by simp
  qed
next
  case (Text i v)
  then show ?thesis using assms(3) by simp
next
  case (Comment i v)
  then show ?thesis using assms(3) by simp
qed

lemma kept_in_result:
  "set (kept_ids fs ts) \<subseteq> set (concat (map ids (fst (morphChildren page_options p fs ts))))"
proof (induction fs ts arbitrary: p rule: kept_ids.induct)
  case (1 ts)
  show ?case by simp
next
  case (2 f fs)
  show ?case by simp
next
  case (3 i n a cs fs t ts)
  let ?f = "Element i n a cs"
  show ?case
  proof (cases "compatible ?f t")
    case True
    let ?f1 = "fst (morphEl page_options ?f t)"
    let ?rest = "fst (morphChildren page_options p fs ts)"
    have r: "fst (morphChildren page_options p (?f # fs) (t # ts)) = ?f1 # ?rest"
      using True by (simp add: split_beta del: morphEl.simps)
    have head: "set (if settled ?f t then ids ?f else i # kept_ids cs (childNodes t))
                  \<subseteq> set (ids ?f1)"
    proof (cases "settled ?f t")
      case True
      then show ?thesis by (simp add: morphEl_page_settled del: morphEl.simps)
    next
      case False
      then show ?thesis
        using "3.IH"(1) [OF \<open>compatible ?f t\<close> False, of i]
        by (auto simp add: morphEl_page_settled simp del: morphEl.simps)
    qed
    have tail: "set (kept_ids fs ts) \<subseteq> set (concat (map ids ?rest))"
      using "3.IH"(2) [OF True] .
    have k: "kept_ids (?f # fs) (t # ts) =
               (if settled ?f t then ids ?f else i # kept_ids cs (childNodes t)) @ kept_ids fs ts"
      using True by simp
    show ?thesis unfolding r k using head tail
      by (auto simp del: morphEl.simps ids.simps)
  next
    case False
    then show ?thesis using "3.IH"(3) [OF False, of p] by (simp add: split_beta)
  qed
next
  case (4 i v fs t ts)
  show ?case
  proof (cases "compatible (Text i v) t")
    case True
    then show ?thesis using "4.IH"(1) [OF True, of p] by (auto simp: split_beta)
  next
    case False
    then show ?thesis using "4.IH"(2) [OF False, of p] by (simp add: split_beta)
  qed
next
  case (5 i v fs t ts)
  show ?case
  proof (cases "compatible (Comment i v) t")
    case True
    then show ?thesis using "5.IH"(1) [OF True, of p] by (auto simp: split_beta)
  next
    case False
    then show ?thesis using "5.IH"(2) [OF False, of p] by (simp add: split_beta)
  qed
qed

text \<open>
  The kept nodes are all of them: a node of a live tree with distinct nodes that is
  still in the document after the walk against a fresh target is one of the kept nodes.
\<close>

lemma kept_ids_exact:
  "distinct (concat (map ids fs)) \<Longrightarrow>
   set (concat (map ids fs)) \<inter> set (concat (map ids ts)) = {} \<Longrightarrow>
   e \<in> set (concat (map ids fs)) \<Longrightarrow>
   e \<in> set (concat (map ids (fst (morphChildren page_options p fs ts)))) \<Longrightarrow>
   e \<in> set (kept_ids fs ts)"
proof (induction fs ts arbitrary: p rule: kept_ids.induct)
  case (1 ts)
  then show ?case by simp
next
  case (2 f fs)
  then show ?case by simp
next
  case (3 i n a cs fs t ts)
  let ?f = "Element i n a cs"
  have dcs: "distinct (concat (map ids cs))" and dfs: "distinct (concat (map ids fs))"
    and ffs: "set (ids ?f) \<inter> set (concat (map ids fs)) = {}"
    using "3.prems"(1) by auto
  have ft: "set (ids ?f) \<inter> set (ids t) = {}"
    and fts: "set (ids ?f) \<inter> set (concat (map ids ts)) = {}"
    and fst': "set (concat (map ids fs)) \<inter> set (ids t) = {}"
    and fsts: "set (concat (map ids fs)) \<inter> set (concat (map ids ts)) = {}"
    using "3.prems"(2) by auto
  have ein: "e \<in> set (ids ?f) \<or> e \<in> set (concat (map ids fs))"
    using "3.prems"(3) by auto
  show ?case
  proof (cases "compatible ?f t")
    case True
    let ?f1 = "fst (morphEl page_options ?f t)"
    let ?rest = "fst (morphChildren page_options p fs ts)"
    have r: "fst (morphChildren page_options p (?f # fs) (t # ts)) = ?f1 # ?rest"
      using True by (simp add: split_beta del: morphEl.simps)
    have k: "kept_ids (?f # fs) (t # ts) =
               (if settled ?f t then ids ?f else i # kept_ids cs (childNodes t)) @ kept_ids fs ts"
      using True by simp
    have sub1: "set (ids ?f1) \<subseteq> set (ids ?f) \<union> set (ids t)"
      by (rule morph_ids_subset_el)
    have sub2: "set (concat (map ids ?rest)) \<subseteq>
                  set (concat (map ids fs)) \<union> set (concat (map ids ts))"
      by (rule morph_ids_subset)
    have eout: "e \<in> set (ids ?f1) \<or> e \<in> set (concat (map ids ?rest))"
      using "3.prems"(4) unfolding r by (auto simp del: morphEl.simps ids.simps)
    show ?thesis
    proof (cases "e \<in> set (ids ?f)")
      case inf: True
      have "e \<notin> set (concat (map ids ?rest))"
        using inf ffs fts sub2 by blast
      then have e1: "e \<in> set (ids ?f1)" using eout by blast
      have "e \<in> set (if settled ?f t then ids ?f else i # kept_ids cs (childNodes t))"
      proof (cases "settled ?f t")
        case True
        then show ?thesis using inf by (simp del: ids.simps)
      next
        case False
        show ?thesis
        proof (cases "e = i")
          case True
          then show ?thesis using False by simp
        next
          case ne: False
          have ecs: "e \<in> set (concat (map ids cs))" using inf ne by simp
          have f1: "?f1 = Element i n
              (fst (morphAttrs i a (attributes (with_open_of ?f t))))
              (fst (morphChildren page_options i cs (childNodes t)))"
            using False by (simp add: morphEl_page_settled del: morphEl.simps)
          have ecs1: "e \<in> set (concat (map ids (fst (morphChildren page_options i cs (childNodes t)))))"
            using e1 ne unfolding f1 by simp
          have disj: "set (concat (map ids cs)) \<inter> set (concat (map ids (childNodes t))) = {}"
            using ft ids_childNodes [of t] by auto
          have "e \<in> set (kept_ids cs (childNodes t))"
            using "3.IH"(1) [OF True False dcs disj ecs ecs1] .
          then show ?thesis using False by simp
        qed
      qed
      then show ?thesis unfolding k by (simp del: ids.simps)
    next
      case outf: False
      then have efs: "e \<in> set (concat (map ids fs))" using ein by blast
      have "e \<notin> set (ids t)" using efs fst' by blast
      then have "e \<notin> set (ids ?f1)" using outf sub1 by blast
      then have "e \<in> set (concat (map ids ?rest))" using eout by blast
      then have "e \<in> set (kept_ids fs ts)"
        using "3.IH"(2) [OF True dfs fsts efs] by blast
      then show ?thesis unfolding k by (simp del: ids.simps)
    qed
  next
    case False
    have r: "fst (morphChildren page_options p (?f # fs) (t # ts)) =
               fst (morphChildren page_options p fs (t # ts))"
      using False by (simp add: split_beta)
    have k: "kept_ids (?f # fs) (t # ts) = kept_ids fs (t # ts)"
      using False by simp
    have sub: "set (concat (map ids (fst (morphChildren page_options p fs (t # ts))))) \<subseteq>
                 set (concat (map ids fs)) \<union> set (concat (map ids (t # ts)))"
      by (rule morph_ids_subset)
    have eo: "e \<in> set (concat (map ids (fst (morphChildren page_options p fs (t # ts)))))"
      using "3.prems"(4) unfolding r .
    have disj: "set (concat (map ids fs)) \<inter> set (concat (map ids (t # ts))) = {}"
      using fst' fsts by auto
    have "e \<notin> set (ids ?f)"
    proof
      assume inf: "e \<in> set (ids ?f)"
      then have "e \<notin> set (concat (map ids fs))" using ffs by blast
      moreover have "e \<notin> set (concat (map ids (t # ts)))" using inf ft fts by auto
      ultimately show False using eo sub by blast
    qed
    then have efs: "e \<in> set (concat (map ids fs))" using ein by blast
    show ?thesis unfolding k using "3.IH"(3) [OF False dfs disj efs eo] .
  qed
next
  case (4 i v fs t ts)
  let ?f = "Text i v"
  have dfs: "distinct (concat (map ids fs))" and ffs: "i \<notin> set (concat (map ids fs))"
    using "4.prems"(1) by auto
  have fts: "i \<notin> set (concat (map ids (t # ts)))"
    and fsts: "set (concat (map ids fs)) \<inter> set (concat (map ids ts)) = {}"
    and fstts: "set (concat (map ids fs)) \<inter> set (concat (map ids (t # ts))) = {}"
    using "4.prems"(2) by auto
  show ?case
  proof (cases "compatible ?f t")
    case True
    have r: "set (concat (map ids (fst (morphChildren page_options p (?f # fs) (t # ts))))) =
               insert i (set (concat (map ids (fst (morphChildren page_options p fs ts)))))"
      using True by (simp add: split_beta)
    have k: "kept_ids (?f # fs) (t # ts) = i # kept_ids fs ts" using True by simp
    show ?thesis
    proof (cases "e = i")
      case True
      then show ?thesis unfolding k by simp
    next
      case False
      then have efs: "e \<in> set (concat (map ids fs))" using "4.prems"(3) by simp
      have "e \<in> set (concat (map ids (fst (morphChildren page_options p fs ts))))"
        using "4.prems"(4) False unfolding r by simp
      then show ?thesis unfolding k using "4.IH"(1) [OF True dfs fsts efs] by simp
    qed
  next
    case False
    have r: "fst (morphChildren page_options p (?f # fs) (t # ts)) =
               fst (morphChildren page_options p fs (t # ts))"
      using False by (simp add: split_beta)
    have k: "kept_ids (?f # fs) (t # ts) = kept_ids fs (t # ts)" using False by simp
    have sub: "set (concat (map ids (fst (morphChildren page_options p fs (t # ts))))) \<subseteq>
                 set (concat (map ids fs)) \<union> set (concat (map ids (t # ts)))"
      by (rule morph_ids_subset)
    have eo: "e \<in> set (concat (map ids (fst (morphChildren page_options p fs (t # ts)))))"
      using "4.prems"(4) unfolding r .
    have "e \<noteq> i" using eo sub ffs fts by blast
    then have efs: "e \<in> set (concat (map ids fs))" using "4.prems"(3) by simp
    show ?thesis unfolding k using "4.IH"(2) [OF False dfs fstts efs eo] .
  qed
next
  case (5 i v fs t ts)
  let ?f = "Comment i v"
  have dfs: "distinct (concat (map ids fs))" and ffs: "i \<notin> set (concat (map ids fs))"
    using "5.prems"(1) by auto
  have fts: "i \<notin> set (concat (map ids (t # ts)))"
    and fsts: "set (concat (map ids fs)) \<inter> set (concat (map ids ts)) = {}"
    and fstts: "set (concat (map ids fs)) \<inter> set (concat (map ids (t # ts))) = {}"
    using "5.prems"(2) by auto
  show ?case
  proof (cases "compatible ?f t")
    case True
    have r: "set (concat (map ids (fst (morphChildren page_options p (?f # fs) (t # ts))))) =
               insert i (set (concat (map ids (fst (morphChildren page_options p fs ts)))))"
      using True by (simp add: split_beta)
    have k: "kept_ids (?f # fs) (t # ts) = i # kept_ids fs ts" using True by simp
    show ?thesis
    proof (cases "e = i")
      case True
      then show ?thesis unfolding k by simp
    next
      case False
      then have efs: "e \<in> set (concat (map ids fs))" using "5.prems"(3) by simp
      have "e \<in> set (concat (map ids (fst (morphChildren page_options p fs ts))))"
        using "5.prems"(4) False unfolding r by simp
      then show ?thesis unfolding k using "5.IH"(1) [OF True dfs fsts efs] by simp
    qed
  next
    case False
    have r: "fst (morphChildren page_options p (?f # fs) (t # ts)) =
               fst (morphChildren page_options p fs (t # ts))"
      using False by (simp add: split_beta)
    have k: "kept_ids (?f # fs) (t # ts) = kept_ids fs (t # ts)" using False by simp
    have sub: "set (concat (map ids (fst (morphChildren page_options p fs (t # ts))))) \<subseteq>
                 set (concat (map ids fs)) \<union> set (concat (map ids (t # ts)))"
      by (rule morph_ids_subset)
    have eo: "e \<in> set (concat (map ids (fst (morphChildren page_options p fs (t # ts)))))"
      using "5.prems"(4) unfolding r .
    have "e \<noteq> i" using eo sub ffs fts by blast
    then have efs: "e \<in> set (concat (map ids fs))" using "5.prems"(3) by simp
    show ?thesis unfolding k using "5.IH"(2) [OF False dfs fstts efs eo] .
  qed
qed

text \<open>
  Claim C2, as amended. In a live tree whose nodes are distinct, reconciled against a
  freshly parsed target: an element that carries \<open>open\<close> and that the walk matches
  with a counterpart (the root, or one of the kept nodes read off the two trees) is
  still in the document after the reconciliation and still carries \<open>open\<close>, whatever
  the attributes of its counterpart. (The library's handlers for form controls remove
  no node and write no \<open>open\<close> attribute.)
\<close>

theorem open_state_is_sticky:
  assumes "distinct (ids page)"
      and "set (ids page) \<inter> set (ids (toElement (target_html received_text))) = {}"
      and "e \<in> set (open_ids page)"
      and "e \<in> set (nid page #
             kept_ids (childNodes page) (childNodes (toElement (target_html received_text))))"
  shows "e \<in> set (ids (fst (reconcile toElement page received_text))) \<and>
         e \<in> set (open_ids (fst (reconcile toElement page received_text)))"
proof -
  have "e \<in> set (ids (fst (reconcile toElement page received_text)))"
  proof (cases page)
    case (Element i n a cs)
    let ?ts = "childNodes (toElement (target_html received_text))"
    have r: "fst (reconcile toElement page received_text) =
               Element i n a (fst (morphChildren page_options i cs ?ts))"
      unfolding reconcile_def Element morphdom_fst_snd by simp
    show ?thesis
      unfolding r using assms(4) kept_in_result [of cs ?ts i] Element by auto
  next
    case (Text i v)
    then show ?thesis using assms(3) by simp
  next
    case (Comment i v)
    then show ?thesis using assms(3) by simp
  qed
  then show ?thesis
    using open_kept_while_in_document [of page toElement received_text e] assms(1,2,3)
    by simp
qed

theorem open_state_is_sticky_witness:
  "distinct (ids opened_page) \<and>
   set (ids opened_page) \<inter>
     set (ids (parse_quote (target_html ''<blockquote><details></details></blockquote>''))) = {} \<and>
   open_ids (parse_quote (target_html ''<blockquote><details></details></blockquote>'')) = [] \<and>
   3 \<in> set (open_ids opened_page) \<and>
   nid opened_page #
     kept_ids (childNodes opened_page)
       (childNodes (parse_quote (target_html ''<blockquote><details></details></blockquote>'')))
     = [1, 2, 3, 4] \<and>
   3 \<in> set (ids (fst (reconcile parse_quote opened_page
                         ''<blockquote><details></details></blockquote>''))) \<and>
   3 \<in> set (open_ids (fst (reconcile parse_quote opened_page
                              ''<blockquote><details></details></blockquote>'')))"
proof -
  have h1: "distinct (ids opened_page)" by code_simp
  have h2: "set (ids opened_page) \<inter>
      set (ids (parse_quote (target_html ''<blockquote><details></details></blockquote>''))) = {}"
    by code_simp
  have h3: "3 \<in> set (open_ids opened_page)" by code_simp
  have h4: "nid opened_page #
     kept_ids (childNodes opened_page)
       (childNodes (parse_quote (target_html ''<blockquote><details></details></blockquote>'')))
     = [1, 2, 3, 4]"
    by code_simp
  have h5: "open_ids (parse_quote (target_html ''<blockquote><details></details></blockquote>'')) = []"
    by code_simp
  show ?thesis
    using open_state_is_sticky [of opened_page parse_quote
        "''<blockquote><details></details></blockquote>''" 3] h1 h2 h3 h4 h5
    by simp
qed

text \<open>
  Claim C2 as stated fails. On the page with an opened \<open>details\<close> element as second
  child, the new HTML has a \<open>details\<close> element without \<open>open\<close> at the same index,
  but a heading where the page has a paragraph: the walk finds no live match for the
  heading and discards every live child, the opened element among them, and the
  \<open>details\<close> element of the document is then the new, closed one.
\<close>

theorem open_state_lost:
  "childNodes details_page ! 1 = Element 4 ''DETAILS'' [(''open'', '''')] [] \<and>
   childNodes (parse_titled (target_html ''<h1>x</h1><details></details>'')) ! 1 =
     Element 13 ''DETAILS'' [] [] \<and>
   fst (reconcile parse_titled details_page ''<h1>x</h1><details></details>'') =
     Element 1 ''DIV'' [(''id'', ''mdText''), (''class'', ''markdown-body'')]
       [Element 11 ''H1'' [] [Text 12 ''x''], Element 13 ''DETAILS'' [] [],
        Element 14 ''DIV'' [] []] \<and>
   open_ids (fst (reconcile parse_titled details_page ''<h1>x</h1><details></details>'')) = []"
  by code_simp




lemma morphEl_fragment:
  "fst (morphEl fragment_options (Element i n a cs) t) =
     (let t1 = (if hasAttribute (Element i n a cs) ''open'' then setAttribute t ''open'' ''true''
                else t)
      in if isEqualNode (Element i n a cs) t1 then Element i n a cs
         else Element i n (fst (morphAttrs i a (attributes t1)))
                (fst (morphChildren fragment_options i cs (childNodes t1))))"
  by (simp add: fragment_options_def fragment_onBeforeElUpdated_def Let_def split_beta)

lemma fragment_same_tree_el:
  "fst (morphEl fragment_options f t) = fst (morphEl page_options f t)"
  and fragment_same_tree:
  "fst (morphChildren fragment_options p fs ts) = fst (morphChildren page_options p fs ts)"
proof (induction f t and p fs ts rule: page_induct)
  case (Element i n a cs t)
  let ?f = "Element i n a cs"
  let ?t1 = "if hasAttribute ?f ''open'' then setAttribute t ''open'' ''true'' else t"
  show ?case
  proof (cases "isEqualNode ?f ?t1")
    case True
    then show ?thesis unfolding morphEl_fragment morphEl_page by (simp add: Let_def)
  next
    case False
    then show ?thesis
      unfolding morphEl_fragment morphEl_page using Element.IH [OF refl False]
      by (simp add: Let_def)
  qed
next
  case (Text i v t)
  show ?case by simp
next
  case (Comment i v t)
  show ?case by simp
next
  case (Cleanup p fs)
  show ?case by simp
next
  case (Append p t ts)
  then show ?case by (simp add: split_beta)
next
  case (Walk p f fs t ts)
  show ?case
  proof (cases "compatible f t")
    case True
    then show ?thesis using Walk.IH(1) [OF True] Walk.IH(2) [OF True]
      by (cases "isElement f") (simp_all add: split_beta)
  next
    case False
    then show ?thesis using Walk.IH(3) [OF False] by (simp add: split_beta)
  qed
qed















section \<open>Properties of the diagram upgrade\<close>

text \<open>
  Class names are found whatever the case of their ASCII letters, and only as whole
  tokens of the \<open>class\<close> attribute.
\<close>

lemma getElementsByClassName_folds_case:
  "getElementsByClassName
     (Element 1 ''DIV'' []
        [Element 2 ''CODE'' [(''class'', ''hljs Language-Graphviz'')] [],
         Element 3 ''CODE'' [(''class'', ''language-graphviz2'')] []])
     ''language-graphviz'' =
   [Element 2 ''CODE'' [(''class'', ''hljs Language-Graphviz'')] []]"
  by code_simp

text \<open>
  When no render call throws, every block is requested, nothing reaches
  \<open>console.error\<close>, and every rejection is left without a handler.
\<close>

lemma render_each_without_throw:
  assumes "\<And>el e. el \<in> set els \<Longrightarrow> viz (textContent el) \<noteq> Throws e"
  shows "console_errors (render_each viz els u) = console_errors u \<and>
         unhandled_rejections (render_each viz els u) =
           unhandled_rejections u @
             concat (map (\<lambda>el. case viz (textContent el) of Rejects e \<Rightarrow> [e]
                                | Throws e \<Rightarrow> [] | Resolves n \<Rightarrow> []) els) \<and>
         fulfilled (render_each viz els u) =
           fulfilled u @
             concat (map (\<lambda>el. case viz (textContent el) of Resolves n \<Rightarrow> [(nid el, n)]
                                | Throws e \<Rightarrow> [] | Rejects e \<Rightarrow> []) els)"
  using assms
proof (induction els arbitrary: u)
  case Nil
  show ?case by simp
next
  case (Cons el els)
  have rest: "\<And>x e. x \<in> set els \<Longrightarrow> viz (textContent x) \<noteq> Throws e"
    using Cons.prems by simp
  show ?case
  proof (cases "viz (textContent el)")
    case (Throws e)
    then show ?thesis using Cons.prems [of el e] by simp
  next
    case (Rejects e)
    then show ?thesis using Cons.IH [OF rest] by simp
  next
    case (Resolves n)
    then show ?thesis using Cons.IH [OF rest] by simp
  qed
qed

text \<open>
  Claim C6 fails for a rejected render. The served page receives the update with two
  diagram blocks, and the render of the first is rejected: nothing reaches
  \<open>console.error\<close>, the rejection is left without a handler, the first block stays as
  it is and the second is replaced by its graphic.
\<close>

theorem rejected_render_is_not_caught:
  "onmessage parse_diagrams example_viz empty_page diagrams_html =
     (Element 1 ''DIV'' [(''id'', ''mdText''), (''class'', ''markdown-body'')]
        [Element 11 ''PRE'' []
           [Element 12 ''CODE'' [(''class'', ''language-graphviz'')] [Text 13 ''digraph {'']],
         Element 100 ''svg'' [(''width'', ''100%'')] [],
         Element 17 ''DIV'' [] []],
      [RemoveChild 1 2, AppendChild 1 11, ScrollIntoView 11, ScrollIntoView 12,
       AppendChild 1 14, ScrollIntoView 14, ScrollIntoView 15, AppendChild 1 17,
       ScrollIntoView 17],
      \<lparr>console_errors = [], unhandled_rejections = [Error ''syntax error''],
       fulfilled = [(15, Element 100 ''svg'' [] [])]\<rparr>)"
  by code_simp

text \<open>
  A render call that throws is caught and logged, and ends the loop: the second block
  is never requested, and no block is replaced.
\<close>

lemma thrown_render_ends_the_loop:
  "snd (snd (onmessage parse_diagrams throwing_viz empty_page diagrams_html)) =
     \<lparr>console_errors = [Error ''render failed''], unhandled_rejections = [], fulfilled = []\<rparr> \<and>
   fst (onmessage parse_diagrams throwing_viz empty_page diagrams_html) =
     fst (reconcile parse_diagrams empty_page diagrams_html)"
  by code_simp

end
